theory Spec2Isabelle
  imports Main "HOL-Library.AList" "HOL-Library.Extended_Nat"
begin

section \<open>Data model (src/types.ts)\<close>

text \<open>
  A JavaScript string is modelled as a \<^typ>\<open>string\<close>; a \<^typ>\<open>char\<close> stands for one
  code unit in the range 0..255.  A \<open>CsvRow\<close> (\<open>Record<string, string>\<close>) is the list
  of the object's own (key, value) pairs in the order \<open>Object.entries\<close> yields them;
  keys are pairwise different.  Reading a key that is absent gives \<open>undefined\<close>,
  modelled as \<^term>\<open>None\<close>.  Column names are taken not to be array indices such as
  \<open>"0"\<close>, which JavaScript enumerates before all other keys; for all other names the
  order is the order of insertion, and storing under a new key appends it.
\<close>

type_synonym CsvRow = "(string \<times> string) list"

datatype ProcessingStatus = IDLE | PROCESSING | PAUSED | COMPLETED

record ResearchTask =
  task_id :: string
  newColumnName :: string
  prompt :: string

text \<open>\<open>rowLimit?: number\<close>: \<^term>\<open>None\<close> is \<open>undefined\<close>; only integral limits are modelled.\<close>

record ResearchConfig =
  targetColumns :: "string list"
  tasks :: "ResearchTask list"
  useThinkingModel :: bool
  rowLimit :: "int option"

record Source =
  title :: string
  uri :: string

record ResearchResult =
  res_text :: string
  res_sources :: "Source list"

section \<open>String helpers of the JavaScript runtime\<close>

text \<open>
  \<open>String.prototype.trim\<close> removes white space and line terminators from both ends.
  In the modelled range these are TAB, LF, VT, FF, CR, SPACE and NBSP.
\<close>

definition is_ws :: "char \<Rightarrow> bool" where
  "is_ws c = (c \<in> set [CHR 0x09, CHR 0x0A, CHR 0x0B, CHR 0x0C, CHR 0x0D, CHR 0x20, CHR 0xA0])"

definition trim :: "string \<Rightarrow> string" where
  "trim s = rev (dropWhile is_ws (rev (dropWhile is_ws s)))"

text \<open>
  \<open>Array.prototype.join\<close>: the elements separated by \<open>sep\<close>; an \<open>undefined\<close>
  element contributes the empty string.
\<close>

fun join :: "string \<Rightarrow> string option list \<Rightarrow> string" where
  "join sep [] = []"
| "join sep [x] = (case x of None \<Rightarrow> [] | Some s \<Rightarrow> s)"
| "join sep (x # y # ys) = (case x of None \<Rightarrow> [] | Some s \<Rightarrow> s) @ sep @ join sep (y # ys)"

section \<open>Entity resolution (src/App.tsx, handleStartResearch, lines 162-173)\<close>

text \<open>
  \<open>row[col]\<close>.  A row is a plain object, its prototype is \<open>Object.prototype\<close>, and
  its own properties are its entries.  Reading a key gives the row's own string when the
  row has the key; otherwise the lookup goes on in the prototype and finds, under the
  names below, a function (under \<open>__proto__\<close> the prototype object itself); under any
  other name it gives \<open>undefined\<close>.
\<close>

datatype JsValue = Undefined | Str string | Inherited

definition objectPrototypeKeys :: "string list" where
  "objectPrototypeKeys =
     [''constructor'', ''hasOwnProperty'', ''isPrototypeOf'', ''propertyIsEnumerable'',
      ''toLocaleString'', ''toString'', ''valueOf'', ''__proto__'', ''__defineGetter__'',
      ''__defineSetter__'', ''__lookupGetter__'', ''__lookupSetter__'']"

definition row_get :: "CsvRow \<Rightarrow> string \<Rightarrow> JsValue" where
  "row_get row col =
     (case map_of row col of
        Some v \<Rightarrow> Str v
      | None \<Rightarrow> if col \<in> set objectPrototypeKeys then Inherited else Undefined)"

text \<open>
  The filter predicate \<open>val => val && val.trim() !== ''\<close>.  \<open>undefined\<close> and \<open>''\<close>
  are falsy, and \<open>&&\<close> then skips its right operand.  An inherited member is truthy
  and has no \<open>trim\<close>, so the call \<open>val.trim()\<close> raises a \<open>TypeError\<close>.
\<close>

datatype JsError = TypeError

definition keepVal :: "JsValue \<Rightarrow> JsError + bool" where
  "keepVal val =
     (case val of
        Undefined \<Rightarrow> Inr False
      | Str v \<Rightarrow> if v = [] then Inr False else Inr (trim v \<noteq> [])
      | Inherited \<Rightarrow> Inl TypeError)"

text \<open>\<open>Array.prototype.filter\<close> with a predicate that may raise: the exception ends it.\<close>

fun filterE :: "('a \<Rightarrow> JsError + bool) \<Rightarrow> 'a list \<Rightarrow> JsError + 'a list" where
  "filterE f [] = Inr []"
| "filterE f (x # xs) =
     (case f x of
        Inl e \<Rightarrow> Inl e
      | Inr b \<Rightarrow> (case filterE f xs of
                    Inl e \<Rightarrow> Inl e
                  | Inr ys \<Rightarrow> Inr (if b then x # ys else ys)))"

text \<open>
  What \<open>join\<close> makes of an element.  The filter above keeps strings only (lemma
  \<open>kept_strings\<close> below), so the other two cases are never reached from \<open>entityName\<close>.
\<close>

definition joinItem :: "JsValue \<Rightarrow> string option" where
  "joinItem val = (case val of Str v \<Rightarrow> Some v | Undefined \<Rightarrow> None | Inherited \<Rightarrow> None)"

definition entityName :: "ResearchConfig \<Rightarrow> CsvRow \<Rightarrow> JsError + string" where
  "entityName config row =
     (case filterE keepVal (map (\<lambda>col. row_get row col) (targetColumns config)) of
        Inl e \<Rightarrow> Inl e
      | Inr vals \<Rightarrow> Inr (join '' '' (map joinItem vals)))"

text \<open>
  \<open>Object.entries(row).filter(([key]) => !config.targetColumns.includes(key) &&
  !config.tasks.find(t => t.newColumnName === key)).map(([key, val]) => `${key}: ${val}`)\<close>
\<close>

definition isContextKey :: "ResearchConfig \<Rightarrow> string \<Rightarrow> bool" where
  "isContextKey config key =
     (\<not> List.member (targetColumns config) key \<and>
      find (\<lambda>t. newColumnName t = key) (tasks config) = None)"

definition contextParts :: "ResearchConfig \<Rightarrow> CsvRow \<Rightarrow> string list" where
  "contextParts config row =
     map (\<lambda>(key, val). key @ '': '' @ val) (filter (\<lambda>(key, val). isContextKey config key) row)"

definition contextStr :: "ResearchConfig \<Rightarrow> CsvRow \<Rightarrow> string" where
  "contextStr config row = join '', '' (map Some (contextParts config row))"

section \<open>Batch planning (src/App.tsx, handleStartResearch, lines 128-136)\<close>

text \<open>
  \<open>config.rowLimit && config.rowLimit > 0 ? config.rowLimit : newData.length\<close>, then
  \<open>Math.min(newData.length, limit)\<close>.
\<close>

definition effectiveTotal :: "ResearchConfig \<Rightarrow> nat \<Rightarrow> nat" where
  "effectiveTotal config len =
     (let limit = (case rowLimit config of
                     None \<Rightarrow> len
                   | Some n \<Rightarrow> if n \<noteq> 0 \<and> n > 0 then nat n else len)
      in min len limit)"

text \<open>
  \<open>Math.max(1, Math.floor(concurrentLimit / tasksPerItem))\<close>.  With an empty task list
  the quotient is \<open>Infinity\<close> in JavaScript, hence the result is an \<^typ>\<open>enat\<close>.
\<close>

definition concurrentLimit :: "ResearchConfig \<Rightarrow> nat" where
  "concurrentLimit config = (if useThinkingModel config then 2 else 10)"

definition BATCH_SIZE :: "ResearchConfig \<Rightarrow> enat" where
  "BATCH_SIZE config =
     (let tasksPerItem = length (tasks config)
      in max 1 (if tasksPerItem = 0 then \<infinity> else enat (concurrentLimit config div tasksPerItem)))"

section \<open>The research task invoker (geminiService, researchEntity)\<close>

text \<open>
  The provider call \<open>ai.models.generateContent\<close> is external.  Its outcome is an input of
  the model: either anything thrown inside the \<open>try\<close> block (\<open>ProviderFailed\<close>), or a
  response with its optional \<open>text\<close> and its optional list of grounding chunks, each
  chunk with an optional \<open>web\<close> part.
\<close>

record WebChunk =
  web_title :: "string option"
  web_uri :: "string option"

datatype ProviderOutcome =
  ProviderFailed
| ProviderResponse "string option" "WebChunk option list option"

datatype InvokeError = ApiKeyMissing

definition chunkSources :: "WebChunk option list \<Rightarrow> Source list" where
  "chunkSources chunks =
     concat (map (\<lambda>chunk. case chunk of
                     None \<Rightarrow> []
                   | Some w \<Rightarrow> [\<lparr>title = (case web_title w of None \<Rightarrow> ''Source'' | Some t \<Rightarrow> t),
                                uri = (case web_uri w of None \<Rightarrow> [] | Some u \<Rightarrow> u)\<rparr>]) chunks)"

text \<open>
  \<open>apiKey\<close> is the module constant \<open>process.env.API_KEY || ''\<close>.  The subject, query,
  context and model flag only shape the request sent to the provider; the value returned
  depends on them through the provider's outcome alone.
\<close>

definition researchEntity ::
  "string \<Rightarrow> string \<Rightarrow> string \<Rightarrow> string option \<Rightarrow> bool \<Rightarrow> ProviderOutcome
     \<Rightarrow> InvokeError + ResearchResult" where
  "researchEntity apiKey subject userQuery context thinking outcome =
     (if apiKey = [] then Inl ApiKeyMissing
      else case outcome of
        ProviderFailed \<Rightarrow> Inr \<lparr>res_text = ''Error'', res_sources = []\<rparr>
      | ProviderResponse txt chunks \<Rightarrow>
          Inr \<lparr>res_text = (case txt of None \<Rightarrow> ''N/A''
                                     | Some t \<Rightarrow> if t = [] then ''N/A'' else trim t),
               res_sources = (case chunks of None \<Rightarrow> [] | Some cs \<Rightarrow> chunkSources cs)\<rparr>)"

section \<open>Application state and run control (src/App.tsx, lines 12-106)\<close>

text \<open>One fired invocation: the arguments of \<open>researchEntity\<close> and the tags added by \<open>.then\<close>.\<close>

record Request =
  rowIndex :: nat
  taskIndex :: nat
  req_entityName :: string
  req_prompt :: string
  req_context :: string
  req_thinking :: bool

text \<open>
  The React state and the three refs of the \<open>App\<close> component.  A state setter is
  modelled as an assignment.  \<open>cellSources\<close> is keyed by the string
  \<open>`${rowIndex}-${colName}`\<close>; since the row index is a decimal numeral the key
  determines the pair, and the model uses the pair itself.  \<open>resumeResolverRef\<close> is
  \<^term>\<open>True\<close> when the ref holds a resolver and \<^term>\<open>False\<close> when it is \<open>null\<close>.
  \<open>originalData\<close> and \<open>originalColumns\<close> are not touched by the handlers below.
  \<open>invocations\<close> is not a variable of the program: it lists the calls of
  \<open>researchEntity\<close> made so far, in the order they were made.
\<close>

record App =
  data :: "CsvRow list"
  columns :: "string list"
  status :: ProcessingStatus
  processedCount :: nat
  activeConfig :: "ResearchConfig option"
  cellSources :: "nat \<times> string \<Rightarrow> Source list option"
  isPausedRef :: bool
  isCancelledRef :: bool
  resumeResolverRef :: bool
  invocations :: "Request list"

text \<open>
  The local variables of one call of \<open>handleStartResearch\<close> that live across its
  \<open>await\<close>s, and the three places where the call can be suspended.
\<close>

record Loop =
  l_config :: ResearchConfig
  l_newData :: "CsvRow list"
  l_effectiveTotal :: nat
  l_BATCH_SIZE :: enat
  l_i :: nat

datatype Await = AwaitResume | AwaitBatch | AwaitDelay

type_synonym Suspended = "Await \<times> Loop"

type_synonym Sys = "App \<times> Suspended option"

definition handlePause :: "App \<Rightarrow> App" where
  "handlePause s = s\<lparr>isPausedRef := True, status := PAUSED\<rparr>"

section \<open>The orchestration loop (src/App.tsx, handleStartResearch, lines 108-230)\<close>

text \<open>\<open>Math.min(i + BATCH_SIZE, effectiveTotal)\<close>\<close>

definition batchEnd :: "Loop \<Rightarrow> nat" where
  "batchEnd L =
     (if enat (l_i L) + l_BATCH_SIZE L < enat (l_effectiveTotal L)
      then the_enat (enat (l_i L) + l_BATCH_SIZE L) else l_effectiveTotal L)"

text \<open>
  The body of the inner loop for row \<open>j\<close> (lines 160-190): the invocations it makes,
  or the exception raised while the subject is resolved.  \<open>j\<close> is below
  \<open>effectiveTotal\<close>, which is at most the length of \<open>newData\<close>.
\<close>

definition rowRequests :: "ResearchConfig \<Rightarrow> CsvRow list \<Rightarrow> nat \<Rightarrow> JsError + Request list" where
  "rowRequests config newData j =
     (let row = newData ! j
      in case entityName config row of
           Inl e \<Rightarrow> Inl e
         | Inr name \<Rightarrow>
             Inr (if name \<noteq> [] then
                    map (\<lambda>taskIdx.
                           \<lparr>rowIndex = j, taskIndex = taskIdx, req_entityName = name,
                            req_prompt = prompt (tasks config ! taskIdx),
                            req_context = contextStr config row,
                            req_thinking = useThinkingModel config\<rparr>)
                        [0..<length (tasks config)]
                  else []))"

text \<open>
  The inner loop over the rows \<open>js\<close> of a batch: the invocations made, in order, and
  the exception that has ended the loop, if any.  The invocations for the rows before
  the one that raises have been made.
\<close>

fun collectRequests ::
  "ResearchConfig \<Rightarrow> CsvRow list \<Rightarrow> nat list \<Rightarrow> Request list \<times> JsError option" where
  "collectRequests config newData [] = ([], None)"
| "collectRequests config newData (j # js) =
     (case rowRequests config newData j of
        Inl e \<Rightarrow> ([], Some e)
      | Inr rs \<Rightarrow> (rs @ fst (collectRequests config newData js),
                   snd (collectRequests config newData js)))"

definition batchRequests :: "Loop \<Rightarrow> Request list" where
  "batchRequests L =
     fst (collectRequests (l_config L) (l_newData L) [l_i L..<batchEnd L])"

definition batchThrows :: "Loop \<Rightarrow> bool" where
  "batchThrows L =
     (snd (collectRequests (l_config L) (l_newData L) [l_i L..<batchEnd L]) \<noteq> None)"

definition invoke :: "string \<Rightarrow> Request \<Rightarrow> ProviderOutcome \<Rightarrow> InvokeError + ResearchResult" where
  "invoke apiKey rq outcome =
     researchEntity apiKey (req_entityName rq) (req_prompt rq) (Some (req_context rq))
       (req_thinking rq) outcome"

text \<open>\<open>Promise.all\<close>: rejected as soon as one member is, else the values in order.\<close>

fun promiseAll :: "('e + 'a) list \<Rightarrow> 'e + 'a list" where
  "promiseAll [] = Inr []"
| "promiseAll (Inl e # ps) = Inl e"
| "promiseAll (Inr x # ps) = (case promiseAll ps of Inl e \<Rightarrow> Inl e | Inr xs \<Rightarrow> Inr (x # xs))"

text \<open>The body of \<open>results.forEach\<close> (lines 200-213), for the table and for \<open>newSources\<close>.\<close>

definition writeResult :: "ResearchConfig \<Rightarrow> CsvRow list \<Rightarrow> Request \<times> ResearchResult \<Rightarrow> CsvRow list" where
  "writeResult config newData p =
     (let colName = newColumnName (tasks config ! taskIndex (fst p))
      in newData[rowIndex (fst p) :=
           AList.update colName (res_text (snd p)) (newData ! rowIndex (fst p))])"

definition collectSources ::
  "ResearchConfig \<Rightarrow> (nat \<times> string \<Rightarrow> Source list option) \<Rightarrow> Request \<times> ResearchResult
     \<Rightarrow> (nat \<times> string \<Rightarrow> Source list option)" where
  "collectSources config newSources p =
     (let colName = newColumnName (tasks config ! taskIndex (fst p))
      in if res_sources (snd p) \<noteq> []
         then newSources((rowIndex (fst p), colName) \<mapsto> res_sources (snd p))
         else newSources)"

text \<open>
  A piece of the loop body either reaches the end of the body (\<open>Next\<close>) or leaves the
  synchronous run (\<open>Stop\<close>): by \<open>return\<close>, with no continuation, or at an \<open>await\<close>.
\<close>

datatype Flow = Next App | Stop App "Suspended option"

text \<open>Lines 219-226.\<close>

definition finishBatch :: "App \<Rightarrow> Loop \<Rightarrow> Flow" where
  "finishBatch s L =
     (let s' = s\<lparr>data := l_newData L, processedCount := batchEnd L\<rparr>
      in if batchEnd L < l_effectiveTotal L then Stop s' (Some (AwaitDelay, L)) else Next s')"

text \<open>
  Lines 154-195.  An exception raised while the batch is prepared ends the call, with the
  state as it is.
\<close>

definition fireBatch :: "App \<Rightarrow> Loop \<Rightarrow> Flow" where
  "fireBatch s L =
     (let s' = s\<lparr>invocations := invocations s @ batchRequests L\<rparr>
      in if batchThrows L then Stop s' None
         else if batchRequests L \<noteq> [] then Stop s' (Some (AwaitBatch, L))
         else finishBatch s' L)"

text \<open>Lines 140-152, up to the first \<open>await\<close>.\<close>

definition loopBody :: "App \<Rightarrow> Loop \<Rightarrow> Flow" where
  "loopBody s L =
     (if isCancelledRef s then Stop s None
      else if isPausedRef s then Stop (s\<lparr>resumeResolverRef := True\<rparr>) (Some (AwaitResume, L))
      else fireBatch s L)"

text \<open>
  \<open>for (...; i < effectiveTotal; i += BATCH_SIZE)\<close> entered at its test with counter
  \<open>ie\<close>, followed by line 229.
\<close>

function forLoop :: "App \<Rightarrow> Loop \<Rightarrow> enat \<Rightarrow> Sys" where
  "forLoop s L ie =
     (if ie < enat (l_effectiveTotal L) then
        (case loopBody s (L\<lparr>l_i := the_enat ie\<rparr>) of
           Stop s' susp \<Rightarrow> (s', susp)
         | Next s' \<Rightarrow> forLoop s' (L\<lparr>l_i := the_enat ie\<rparr>) (ie + l_BATCH_SIZE L))
      else (s\<lparr>status := COMPLETED\<rparr>, None))"
  by pat_completeness auto

termination forLoop
proof (relation "measure (\<lambda>(s, L, ie). if ie < enat (l_effectiveTotal L) then 1 else 0)")
  show "wf (measure (\<lambda>(s, L, ie). if ie < enat (l_effectiveTotal L) then 1 else (0::nat)))"
    by simp
next
  fix s :: App and L :: Loop and ie :: enat and s' :: App
  assume lt: "ie < enat (l_effectiveTotal L)"
    and nx: "loopBody s (L\<lparr>l_i := the_enat ie\<rparr>) = Next s'"
  from lt obtain k where k: "ie = enat k" by (cases ie) auto
  from nx have "\<not> batchEnd (L\<lparr>l_i := the_enat ie\<rparr>) < l_effectiveTotal L"
    by (auto simp: loopBody_def fireBatch_def finishBatch_def Let_def split: if_splits)
  with k have "\<not> ie + l_BATCH_SIZE L < enat (l_effectiveTotal L)"
    by (cases "l_BATCH_SIZE L") (auto simp: batchEnd_def split: if_splits)
  with lt show "((s', L\<lparr>l_i := the_enat ie\<rparr>, ie + l_BATCH_SIZE L), (s, L, ie))
        \<in> measure (\<lambda>(s, L, ie). if ie < enat (l_effectiveTotal L) then 1 else 0)"
    by simp
qed

declare forLoop.simps [simp del]

text \<open>The rest of the call after a piece of the body of iteration \<open>l_i L\<close>.\<close>

definition continue :: "Flow \<Rightarrow> Loop \<Rightarrow> Sys" where
  "continue f L =
     (case f of
        Stop s' susp \<Rightarrow> (s', susp)
      | Next s' \<Rightarrow> forLoop s' L (enat (l_i L) + l_BATCH_SIZE L))"

text \<open>Waking from \<open>await waitForResume()\<close>: lines 148-152, then the batch.\<close>

definition afterResume :: "App \<Rightarrow> Loop \<Rightarrow> Sys" where
  "afterResume s L = (if isCancelledRef s then (s, None) else continue (fireBatch s L) L)"

text \<open>
  Waking from \<open>await Promise.all(batchPromises)\<close> with the provider's outcome for each
  fired invocation, in firing order: lines 195-226.  When an invocation has raised, the
  \<open>await\<close> throws and the call ends there.
\<close>

definition afterBatch :: "string \<Rightarrow> App \<Rightarrow> Loop \<Rightarrow> ProviderOutcome list \<Rightarrow> Sys" where
  "afterBatch apiKey s L outcomes =
     (case promiseAll (map2 (invoke apiKey) (batchRequests L) outcomes) of
        Inl e \<Rightarrow> (s, None)
      | Inr results \<Rightarrow>
          let tagged = zip (batchRequests L) results;
              L' = L\<lparr>l_newData := foldl (writeResult (l_config L)) (l_newData L) tagged\<rparr>;
              newSources = foldl (collectSources (l_config L)) Map.empty tagged;
              s' = s\<lparr>cellSources := cellSources s ++ newSources\<rparr>
          in continue (finishBatch s' L') L')"

text \<open>Waking from the delay between batches.\<close>

definition afterDelay :: "App \<Rightarrow> Loop \<Rightarrow> Sys" where
  "afterDelay s L = forLoop s L (enat (l_i L) + l_BATCH_SIZE L)"

text \<open>
  \<open>handleStartResearch\<close> up to its first \<open>await\<close> (or its end).  \<open>data\<close> and
  \<open>columns\<close> are the values of the render the callback belongs to.
\<close>

definition initialLoop :: "App \<Rightarrow> ResearchConfig \<Rightarrow> Loop" where
  "initialLoop s config =
     \<lparr>l_config = config, l_newData = data s,
      l_effectiveTotal = effectiveTotal config (length (data s)),
      l_BATCH_SIZE = BATCH_SIZE config, l_i = 0\<rparr>"

definition handleStartResearch :: "App \<Rightarrow> ResearchConfig \<Rightarrow> Sys" where
  "handleStartResearch s config =
     (if data s = [] then (s, None)
      else
        let s1 = s\<lparr>isPausedRef := False, isCancelledRef := False, resumeResolverRef := False,
                   status := PROCESSING, activeConfig := Some config, processedCount := 0\<rparr>;
            newColumnsToAdd =
              filter (\<lambda>name. \<not> List.member (columns s) name) (map newColumnName (tasks config));
            s2 = (if newColumnsToAdd \<noteq> [] then s1\<lparr>columns := columns s1 @ newColumnsToAdd\<rparr>
                  else s1)
        in forLoop s2 (initialLoop s config) 0)"

text \<open>
  \<open>if (resumeResolverRef.current) { resumeResolverRef.current(); resumeResolverRef.current
  = null; }\<close>: the suspended call, if it waits for the resolver, goes on once the handler
  has returned.
\<close>

definition release :: "Sys \<Rightarrow> Sys" where
  "release \<sigma> =
     (if resumeResolverRef (fst \<sigma>) then
        (let s' = (fst \<sigma>)\<lparr>resumeResolverRef := False\<rparr>
         in case snd \<sigma> of
              Some (AwaitResume, L) \<Rightarrow> afterResume s' L
            | _ \<Rightarrow> (s', snd \<sigma>))
      else \<sigma>)"

definition handleResume :: "Sys \<Rightarrow> Sys" where
  "handleResume \<sigma> = release ((fst \<sigma>)\<lparr>isPausedRef := False, status := PROCESSING\<rparr>, snd \<sigma>)"

definition handleCancel :: "Sys \<Rightarrow> Sys" where
  "handleCancel \<sigma> =
     release ((fst \<sigma>)\<lparr>isCancelledRef := True, isPausedRef := False, status := IDLE\<rparr>, snd \<sigma>)"

section \<open>A run as a sequence of events\<close>

text \<open>
  The handlers run one at a time, and only while the call of \<open>handleStartResearch\<close> is
  suspended.  An event is a call of a control handler by the user, the settling of the
  batch in flight, or the end of the delay.  An event that cannot happen in a state
  (no batch in flight, a wrong number of outcomes, no delay running) gives \<^term>\<open>None\<close>.
  Edits of the table through the sheet while a run is active, and a second call of
  \<open>handleStartResearch\<close> during a run, are not among the events.
\<close>

datatype Event = Pause | Resume | Cancel | BatchSettled "ProviderOutcome list" | DelayElapsed

definition step :: "string \<Rightarrow> Sys \<Rightarrow> Event \<Rightarrow> Sys option" where
  "step apiKey \<sigma> ev =
     (case ev of
        Pause \<Rightarrow> Some (handlePause (fst \<sigma>), snd \<sigma>)
      | Resume \<Rightarrow> Some (handleResume \<sigma>)
      | Cancel \<Rightarrow> Some (handleCancel \<sigma>)
      | BatchSettled outcomes \<Rightarrow>
          (case snd \<sigma> of
             Some (AwaitBatch, L) \<Rightarrow>
               if length outcomes = length (batchRequests L)
               then Some (afterBatch apiKey (fst \<sigma>) L outcomes) else None
           | _ \<Rightarrow> None)
      | DelayElapsed \<Rightarrow>
          (case snd \<sigma> of
             Some (AwaitDelay, L) \<Rightarrow> Some (afterDelay (fst \<sigma>) L)
           | _ \<Rightarrow> None))"

fun exec :: "string \<Rightarrow> Sys \<Rightarrow> Event list \<Rightarrow> Sys option" where
  "exec apiKey \<sigma> [] = Some \<sigma>"
| "exec apiKey \<sigma> (ev # evs) =
     (case step apiKey \<sigma> ev of None \<Rightarrow> None | Some \<sigma>' \<Rightarrow> exec apiKey \<sigma>' evs)"

section \<open>The specification's wording of the subject\<close>

text \<open>
  The value a row holds under a column, in the specification's data model, where a
  missing value is the empty string.
\<close>

definition cellValue :: "CsvRow \<Rightarrow> string \<Rightarrow> string" where
  "cellValue row col = (case map_of row col of None \<Rightarrow> [] | Some v \<Rightarrow> v)"

text \<open>
  The subject as the specification words it: the values of the target columns, each
  trimmed, the empty ones dropped, the rest joined with a single space.
\<close>

definition subject_spec :: "ResearchConfig \<Rightarrow> CsvRow \<Rightarrow> string" where
  "subject_spec config row =
     join '' '' (map Some (filter (\<lambda>v. v \<noteq> [])
       (map (\<lambda>col. trim (cellValue row col)) (targetColumns config))))"

text \<open>
  The same without trimming the values that are kept: a value is dropped when trimming
  it leaves nothing.
\<close>

definition subject_untrimmed :: "ResearchConfig \<Rightarrow> CsvRow \<Rightarrow> string" where
  "subject_untrimmed config row =
     join '' '' (map Some (filter (\<lambda>v. trim v \<noteq> [])
       (map (\<lambda>col. cellValue row col) (targetColumns config))))"

section \<open>Auxiliary predicates\<close>

text \<open>
  A row each of whose target columns reads as \<open>undefined\<close> or as a string that is empty
  or white space only.
\<close>

definition blankSubject :: "ResearchConfig \<Rightarrow> CsvRow \<Rightarrow> bool" where
  "blankSubject config row =
     list_all (\<lambda>col. case row_get row col of
                       Undefined \<Rightarrow> True
                     | Str v \<Rightarrow> trim v = []
                     | Inherited \<Rightarrow> False)
       (targetColumns config)"

text \<open>
  What holds of every state of a run of \<open>config\<close> on a table of \<open>n\<close> rows: the table
  keeps its length, and a suspended call works on the published table, within the bounds
  computed at the start, and has stored its resolver when it waits for \<open>resume\<close>.
\<close>

definition run_inv :: "ResearchConfig \<Rightarrow> nat \<Rightarrow> Sys \<Rightarrow> bool" where
  "run_inv config n \<sigma> =
     (length (data (fst \<sigma>)) = n \<and>
      (case snd \<sigma> of
         None \<Rightarrow> True
       | Some (a, L) \<Rightarrow>
           l_config L = config \<and> l_newData L = data (fst \<sigma>) \<and>
           l_effectiveTotal L = effectiveTotal config n \<and>
           l_BATCH_SIZE L = BATCH_SIZE config \<and>
           l_i L < l_effectiveTotal L \<and>
           (a = AwaitResume \<longrightarrow> resumeResolverRef (fst \<sigma>))))"

text \<open>
  The log of \<open>s'\<close> is the log of \<open>s\<close>, or the log of \<open>s\<close> followed by the invocations
  of one batch prepared from the table of \<open>s\<close>.
\<close>

definition grown :: "ResearchConfig \<Rightarrow> App \<Rightarrow> App \<Rightarrow> bool" where
  "grown config s s' =
     (invocations s' = invocations s \<or>
      (\<exists>L. l_config L = config \<and> l_newData L = data s \<and>
           invocations s' = invocations s @ batchRequests L))"

text \<open>
  The variables of the call at the iteration after that of \<open>L\<close>, working on the table
  \<open>nd\<close>.
\<close>

definition nextBatch :: "Loop \<Rightarrow> CsvRow list \<Rightarrow> Loop" where
  "nextBatch L nd = L\<lparr>l_newData := nd, l_i := batchEnd L\<rparr>"

text \<open>The cell an invocation's result is written to.\<close>

abbreviation (input) cellKey :: "ResearchConfig \<Rightarrow> Request \<Rightarrow> nat \<times> string" where
  "cellKey config rq \<equiv> (rowIndex rq, newColumnName (tasks config ! taskIndex rq))"

text \<open>A later invocation of the batch is written to the cell of invocation \<open>k\<close>.\<close>

definition laterWrite :: "ResearchConfig \<Rightarrow> Request list \<Rightarrow> nat \<Rightarrow> bool" where
  "laterWrite config rqs k =
     list_ex (\<lambda>rq. cellKey config rq = cellKey config (rqs ! k)) (drop (Suc k) rqs)"

section \<open>A sample table and configuration\<close>

text \<open>
  Three rows with the identity column \<open>Name\<close>; the second name is blank and the third has
  surrounding spaces.  One task, with the thinking model: batches of two rows.
\<close>

definition demo_app :: App where
  "demo_app =
     \<lparr>data = [[(''Name'', ''Acme'')], [(''Name'', ''  '')], [(''Name'', '' Bolt '')]],
      columns = [''Name''], status = IDLE, processedCount = 0, activeConfig = None,
      cellSources = Map.empty, isPausedRef = False, isCancelledRef = False,
      resumeResolverRef = False, invocations = []\<rparr>"

definition demo_config :: ResearchConfig where
  "demo_config =
     \<lparr>targetColumns = [''Name''],
      tasks = [\<lparr>task_id = ''1'', newColumnName = ''CEO'', prompt = ''Who is the CEO?''\<rparr>],
      useThinkingModel = True, rowLimit = Some 0\<rparr>"

text \<open>The provider answers the first batch and fails in the second.\<close>

definition demo_events :: "Event list" where
  "demo_events = [BatchSettled [ProviderResponse (Some ''Jane Roe'') None], DelayElapsed,
                  BatchSettled [ProviderFailed]]"

text \<open>
  Three rows with a name each: the first batch holds two invocations, of which the first
  fails, and the second batch holds one.
\<close>

definition demo_app3 :: App where
  "demo_app3 =
     demo_app\<lparr>data := [[(''Name'', ''Acme'')], [(''Name'', ''Bolt'')], [(''Name'', ''Cyan'')]]\<rparr>"

definition demo_outcomes :: "ProviderOutcome list" where
  "demo_outcomes = [ProviderFailed, ProviderResponse (Some ''Jane Roe'') None]"

text \<open>
  The table read from a file with the header \<open>Name,constructor\<close> and the one short
  line \<open>Acme\<close>: the parser gives the row the key \<open>Name\<close> only.  Both columns are
  chosen as target columns.
\<close>

definition demo_short :: App where
  "demo_short =
     demo_app\<lparr>data := [[(''Name'', ''Acme'')]], columns := [''Name'', ''constructor'']\<rparr>"

definition demo_inherited :: ResearchConfig where
  "demo_inherited = demo_config\<lparr>targetColumns := [''Name'', ''constructor'']\<rparr>"

section \<open>Entity resolution: properties\<close>

lemma trim_Nil: "trim [] = []"
  by (simp add: trim_def)

lemma kept_strings:
  "filterE keepVal vals = Inr kept \<Longrightarrow> \<forall>v\<in>set kept. \<exists>s. v = Str s"
proof (induction vals arbitrary: kept)
  case Nil
  then show ?case by simp
next
  case (Cons v vals)
  then show ?case
    by (cases v) (auto simp: keepVal_def split: sum.splits if_splits)
qed

lemma join_strings: "map joinItem (map Str vs) = map Some vs"
  by (simp add: joinItem_def comp_def)

lemma row_get_present:
  "col \<in> fst ` set row \<Longrightarrow> row_get row col = Str (cellValue row col)"
proof -
  assume "col \<in> fst ` set row"
  then obtain v where "map_of row col = Some v"
    by (metis map_of_eq_None_iff not_None_eq)
  then show ?thesis by (simp add: row_get_def cellValue_def)
qed

lemma keepVal_Str: "keepVal (Str v) = Inr (trim v \<noteq> [])"
  by (simp add: keepVal_def trim_Nil)

lemma keepVal_cases:
  "keepVal Undefined = Inr False" "keepVal Inherited = Inl TypeError"
  by (simp_all add: keepVal_def)

lemma kept_values:
  "set cols \<subseteq> fst ` set row \<Longrightarrow>
     filterE keepVal (map (\<lambda>col. row_get row col) cols) =
     Inr (map Str (filter (\<lambda>v. trim v \<noteq> []) (map (\<lambda>col. cellValue row col) cols)))"
  by (induction cols) (simp_all add: row_get_present keepVal_Str)

text \<open>
  C1 (as amended).  For every configuration and every row that holds all the target
  columns, the subject is made of the values of the target columns read from the row, in
  the order of the target columns: the values that are empty once trimmed are dropped,
  and the values that remain are joined, as they are and untrimmed, with a single space.
\<close>

theorem C1_subject_untrimmed:
  "set (targetColumns config) \<subseteq> fst ` set row \<Longrightarrow>
     entityName config row = Inr (subject_untrimmed config row)"
  by (simp add: entityName_def subject_untrimmed_def kept_values join_strings del: map_map)

theorem C1_subject_untrimmed_witness:
  "set (targetColumns demo_config) \<subseteq> fst ` set [(''Name'', '' Acme '')] \<and>
   entityName demo_config [(''Name'', '' Acme '')] = Inr '' Acme ''"
  using C1_subject_untrimmed [of demo_config "[(''Name'', '' Acme '')]"]
  by (simp add: demo_config_def subject_untrimmed_def cellValue_def trim_def is_ws_def)

text \<open>
  C1 as stated fails: for the name \<open>" Acme "\<close> the code's subject keeps the surrounding
  spaces, the specification's subject is \<open>"Acme"\<close>.
\<close>

theorem C1_trim_counterexample:
  "entityName demo_config [(''Name'', '' Acme '')] = Inr '' Acme '' \<and>
   subject_spec demo_config [(''Name'', '' Acme '')] = ''Acme'' \<and>
   entityName demo_config [(''Name'', '' Acme '')]
     \<noteq> Inr (subject_spec demo_config [(''Name'', '' Acme '')])"
  by (simp add: entityName_def subject_spec_def demo_config_def row_get_def keepVal_def
      cellValue_def joinItem_def trim_def is_ws_def)

lemma row_get_append_missing:
  assumes "col \<notin> fst ` set row" and "col \<notin> set objectPrototypeKeys"
  shows "row_get (row @ [(col, [])]) c = (if c = col then Str [] else row_get row c)"
proof -
  from assms(1) have "map_of row col = None" by (simp add: map_of_eq_None_iff)
  then show ?thesis
    by (cases "map_of row c") (auto simp: row_get_def map_add_def)
qed

lemma row_get_missing:
  "col \<notin> fst ` set row \<Longrightarrow> col \<notin> set objectPrototypeKeys \<Longrightarrow> row_get row col = Undefined"
  by (simp add: row_get_def map_of_eq_None_iff[THEN iffD2])

lemma row_get_inherited:
  "row_get row col = Inherited \<longleftrightarrow> col \<notin> fst ` set row \<and> col \<in> set objectPrototypeKeys"
proof (cases "map_of row col")
  case None
  then have "col \<notin> fst ` set row" by (simp add: map_of_eq_None_iff)
  with None show ?thesis by (simp add: row_get_def)
next
  case (Some v)
  then have "col \<in> fst ` set row" by (metis map_of_eq_None_iff option.distinct(1))
  with Some show ?thesis by (simp add: row_get_def)
qed

lemma filter_keep_append_missing:
  "col \<notin> fst ` set row \<Longrightarrow> col \<notin> set objectPrototypeKeys \<Longrightarrow>
     map_sum id (map joinItem) (filterE keepVal (map (\<lambda>c. row_get (row @ [(col, [])]) c) cols)) =
     map_sum id (map joinItem) (filterE keepVal (map (\<lambda>c. row_get row c) cols))"
  by (induction cols)
     (auto simp: row_get_append_missing row_get_missing keepVal_cases keepVal_Str trim_Nil
        split: sum.splits)

lemma filter_keep_drop_missing:
  "col \<notin> fst ` set row \<Longrightarrow> col \<notin> set objectPrototypeKeys \<Longrightarrow>
     filterE keepVal (map (\<lambda>c. row_get row c) (filter (\<lambda>c. c \<noteq> col) cols)) =
     filterE keepVal (map (\<lambda>c. row_get row c) cols)"
  by (induction cols) (auto simp: row_get_missing keepVal_cases split: sum.splits)

lemma filterE_raises:
  "(\<exists>kept. filterE keepVal vals = Inr kept) \<longleftrightarrow> Inherited \<notin> set vals"
proof (induction vals)
  case Nil
  then show ?case by simp
next
  case (Cons v vals)
  show ?case
  proof (cases v)
    case Undefined
    with Cons show ?thesis
      by (cases "filterE keepVal vals") (simp_all add: keepVal_cases)
  next
    case (Str x)
    with Cons show ?thesis
      by (cases "filterE keepVal vals") (simp_all add: keepVal_Str)
  next
    case Inherited
    then show ?thesis by (simp add: keepVal_cases)
  qed
qed

lemma entityName_returns:
  "(\<exists>name. entityName config row = Inr name) \<longleftrightarrow>
     (\<forall>col\<in>set (targetColumns config). col \<in> fst ` set row \<or> col \<notin> set objectPrototypeKeys)"
proof -
  have "(\<exists>name. entityName config row = Inr name) \<longleftrightarrow>
      (\<exists>kept. filterE keepVal (map (\<lambda>col. row_get row col) (targetColumns config)) = Inr kept)"
    by (cases "filterE keepVal (map (\<lambda>col. row_get row col) (targetColumns config))")
       (simp_all add: entityName_def)
  also have "\<dots> \<longleftrightarrow> Inherited \<notin> set (map (\<lambda>col. row_get row col) (targetColumns config))"
    by (rule filterE_raises)
  also have "\<dots> \<longleftrightarrow> (\<forall>col\<in>set (targetColumns config). row_get row col \<noteq> Inherited)"
    by (simp add: image_iff) metis
  also have "\<dots> \<longleftrightarrow>
      (\<forall>col\<in>set (targetColumns config). col \<in> fst ` set row \<or> col \<notin> set objectPrototypeKeys)"
    by (simp only: row_get_inherited) blast
  finally show ?thesis .
qed

lemma isContextKey_iff:
  "isContextKey config key \<longleftrightarrow>
     key \<notin> set (targetColumns config) \<and> key \<notin> newColumnName ` set (tasks config)"
  unfolding isContextKey_def find_None_iff by (simp add: image_iff) blast

text \<open>
  Rows that lack keys.  Resolving the subject returns, with no exception, exactly when
  every target column the row lacks is not the name of a member of \<open>Object.prototype\<close>;
  when the row lacks a target column with such a name (\<open>constructor\<close>, \<open>toString\<close>,
  ...) it raises a \<open>TypeError\<close>.  A target column \<open>col\<close> that the row lacks and that is
  no such name is treated like an empty value and left out of the subject: the outcome is
  the one for the row with the empty string stored under \<open>col\<close>, and the one with
  \<open>col\<close> removed from the target columns.  The context has one entry, in row order, for
  each key present in the row that is neither a target column nor a task column, and no
  other entry; computing it raises nothing.
\<close>

lemma entityName_missing_keys:
  "((\<exists>name. entityName config row = Inr name) \<longleftrightarrow>
      (\<forall>col\<in>set (targetColumns config).
          col \<in> fst ` set row \<or> col \<notin> set objectPrototypeKeys)) \<and>
   (col \<notin> fst ` set row \<and> col \<notin> set objectPrototypeKeys \<longrightarrow>
      entityName config (row @ [(col, [])]) = entityName config row \<and>
      entityName (config\<lparr>targetColumns := filter (\<lambda>c. c \<noteq> col) (targetColumns config)\<rparr>) row
        = entityName config row) \<and>
   contextParts config row =
     map (\<lambda>(key, val). key @ '': '' @ val)
       (filter (\<lambda>(key, val). key \<notin> set (targetColumns config) \<and>
                              key \<notin> newColumnName ` set (tasks config)) row)"
proof -
  have a: "entityName config (row @ [(col, [])]) = entityName config row"
    if "col \<notin> fst ` set row" "col \<notin> set objectPrototypeKeys"
    using filter_keep_append_missing [OF that, of "targetColumns config"]
    by (auto simp: entityName_def split: sum.splits)
  have b: "entityName (config\<lparr>targetColumns := filter (\<lambda>c. c \<noteq> col) (targetColumns config)\<rparr>) row
        = entityName config row"
    if "col \<notin> fst ` set row" "col \<notin> set objectPrototypeKeys"
    using filter_keep_drop_missing [OF that, of "targetColumns config"]
    by (simp add: entityName_def)
  have c: "contextParts config row =
     map (\<lambda>(key, val). key @ '': '' @ val)
       (filter (\<lambda>(key, val). key \<notin> set (targetColumns config) \<and>
                              key \<notin> newColumnName ` set (tasks config)) row)"
    by (simp add: contextParts_def isContextKey_iff)
  from a b c entityName_returns [of config row] show ?thesis by blast
qed

lemma entityName_missing_keys_example:
  "entityName (demo_config\<lparr>targetColumns := [''Name'', ''City'']\<rparr>) [(''Name'', ''Acme'')]
     = Inr ''Acme'' \<and>
   ''City'' \<notin> fst ` set [(''Name'', ''Acme'')] \<and> ''City'' \<notin> set objectPrototypeKeys \<and>
   entityName (demo_config\<lparr>targetColumns := [''Name'', ''City'']\<rparr>)
     ([(''Name'', ''Acme'')] @ [(''City'', [])]) = Inr ''Acme'' \<and>
   entityName (demo_config\<lparr>targetColumns := [''Name'']\<rparr>) [(''Name'', ''Acme'')]
     = Inr ''Acme'' \<and>
   contextParts (demo_config\<lparr>targetColumns := [''Name'', ''City'']\<rparr>)
     [(''Name'', ''Acme''), (''Notes'', ''x'')] = [''Notes: x'']"
proof -
  let ?cfg = "demo_config\<lparr>targetColumns := [''Name'', ''City'']\<rparr>"
  have e: "entityName ?cfg [(''Name'', ''Acme'')] = Inr ''Acme''" by code_simp
  have k: "''City'' \<notin> fst ` set [(''Name'', ''Acme'')]" by simp
  have p: "''City'' \<notin> set objectPrototypeKeys" by code_simp
  have t: "targetColumns ?cfg = [''Name'', ''City'']" by simp
  have n: "newColumnName ` set (tasks ?cfg) = {''CEO''}" by (simp add: demo_config_def)
  from entityName_missing_keys [of ?cfg "[(''Name'', ''Acme'')]" "''City''"] k p e
  have a: "entityName ?cfg ([(''Name'', ''Acme'')] @ [(''City'', [])]) = Inr ''Acme''"
    and b: "entityName (?cfg\<lparr>targetColumns := filter (\<lambda>c. c \<noteq> ''City'') (targetColumns ?cfg)\<rparr>)
       [(''Name'', ''Acme'')] = Inr ''Acme''"
    by simp_all
  from entityName_missing_keys [of ?cfg "[(''Name'', ''Acme''), (''Notes'', ''x'')]" "''City''"]
  have "contextParts ?cfg [(''Name'', ''Acme''), (''Notes'', ''x'')] =
     map (\<lambda>(key, val). key @ '': '' @ val)
       (filter (\<lambda>(key, val). key \<notin> set (targetColumns ?cfg) \<and>
                              key \<notin> newColumnName ` set (tasks ?cfg))
          [(''Name'', ''Acme''), (''Notes'', ''x'')])"
    by blast
  then have c: "contextParts ?cfg [(''Name'', ''Acme''), (''Notes'', ''x'')] = [''Notes: x'']"
    unfolding t n by simp
  from b have b': "entityName (demo_config\<lparr>targetColumns := [''Name'']\<rparr>) [(''Name'', ''Acme'')]
     = Inr ''Acme''"
    by simp
  from e k p a b' c show ?thesis by blast
qed

text \<open>
  C10.  The guard \<open>val && val.trim() !== ''\<close> is there to treat a value the row lacks
  like an empty one, and it does so for every column name but the names of the members of
  \<open>Object.prototype\<close>.  For the table read from a file with the header
  \<open>Name,constructor\<close> and the short line \<open>Acme\<close>, whose only row lacks the key
  \<open>constructor\<close>, and both columns chosen as target columns, the value read is the
  inherited function, which is truthy, and calling \<open>trim\<close> on it raises a
  \<open>TypeError\<close>: resolving the subject fails, where for the lacking column \<open>City\<close> it
  gives \<open>Acme\<close>.  The exception ends the call of \<open>handleStartResearch\<close> with no
  invocation made, and the state stays Processing with no call left to complete the run.
\<close>

theorem C10_inherited_member_raises:
  "''constructor'' \<notin> fst ` set (data demo_short ! 0) \<and>
   entityName demo_inherited (data demo_short ! 0) = Inl TypeError \<and>
   entityName (demo_config\<lparr>targetColumns := [''Name'', ''City'']\<rparr>) (data demo_short ! 0)
     = Inr ''Acme'' \<and>
   status (fst (handleStartResearch demo_short demo_inherited)) = PROCESSING \<and>
   snd (handleStartResearch demo_short demo_inherited) = None \<and>
   invocations (fst (handleStartResearch demo_short demo_inherited)) = []"
  by code_simp

section \<open>The research task invoker: properties\<close>

text \<open>
  C7 (as amended).  With an API key configured the invoker never raises: it returns a
  result for every input, \<open>{text: "Error", sources: []}\<close> when the provider call or the
  handling of its response fails, and the text \<open>"N/A"\<close>, with the sources of the
  response's grounding chunks, when the response has no text.  With no API key
  configured it raises for every input.
\<close>

theorem C7_invoker:
  "(apiKey \<noteq> [] \<longrightarrow>
      (\<exists>r. researchEntity apiKey subject userQuery context thinking outcome = Inr r) \<and>
      researchEntity apiKey subject userQuery context thinking ProviderFailed
        = Inr \<lparr>res_text = ''Error'', res_sources = []\<rparr> \<and>
      researchEntity apiKey subject userQuery context thinking (ProviderResponse None chunks)
        = Inr \<lparr>res_text = ''N/A'',
               res_sources = (case chunks of None \<Rightarrow> [] | Some cs \<Rightarrow> chunkSources cs)\<rparr>) \<and>
   (apiKey = [] \<longrightarrow>
      researchEntity apiKey subject userQuery context thinking outcome = Inl ApiKeyMissing)"
  by (auto simp: researchEntity_def split: ProviderOutcome.splits)

theorem C7_invoker_witness:
  "researchEntity ''key'' ''Acme'' ''Who is the CEO?'' (Some []) False ProviderFailed
     = Inr \<lparr>res_text = ''Error'', res_sources = []\<rparr> \<and>
   researchEntity ''key'' ''Acme'' ''Who is the CEO?'' (Some []) False
       (ProviderResponse None
          (Some [Some \<lparr>web_title = None, web_uri = Some ''https://a.example''\<rparr>]))
     = Inr \<lparr>res_text = ''N/A'',
            res_sources = [\<lparr>title = ''Source'', uri = ''https://a.example''\<rparr>]\<rparr> \<and>
   researchEntity [] ''Acme'' ''Who is the CEO?'' (Some []) False ProviderFailed
     = Inl ApiKeyMissing"
  using C7_invoker [of "''key''" "''Acme''" "''Who is the CEO?''" "Some []" False ProviderFailed
      "Some [Some \<lparr>web_title = None, web_uri = Some ''https://a.example''\<rparr>]"]
    C7_invoker [of "[]" "''Acme''" "''Who is the CEO?''" "Some []" False ProviderFailed None]
  by (simp add: chunkSources_def)

text \<open>
  C7 as stated fails: with the API key missing the invoker raises instead of returning
  the \<open>"Error"\<close> result.
\<close>

theorem C7_missing_key_counterexample:
  "researchEntity [] ''Acme'' ''Who is the CEO?'' (Some []) False ProviderFailed
     = Inl ApiKeyMissing"
  by (simp add: researchEntity_def)

section \<open>Batch planning: properties\<close>

text \<open>
  C8.  For every number of tasks per row that is at least 1 and either value of the
  thinking flag, the batch size is max(1, floor(budget / tasksPerRow)), where the budget
  is 2 with the thinking model and 10 without.
\<close>

theorem C8_batch_size:
  "1 \<le> length (tasks config) \<Longrightarrow>
     BATCH_SIZE config =
       enat (max 1 ((if useThinkingModel config then 2 else 10) div length (tasks config)))"
  by (auto simp add: BATCH_SIZE_def concurrentLimit_def Let_def max_def one_enat_def)

theorem C8_batch_size_witness:
  "1 \<le> length (tasks demo_config) \<and> BATCH_SIZE demo_config = enat 2 \<and>
   BATCH_SIZE (demo_config\<lparr>tasks := replicate 3 (hd (tasks demo_config)),
                           useThinkingModel := False\<rparr>) = enat 3 \<and>
   BATCH_SIZE (demo_config\<lparr>tasks := replicate 5 (hd (tasks demo_config))\<rparr>) = enat 1"
  using C8_batch_size [of demo_config]
    C8_batch_size [of "demo_config\<lparr>tasks := replicate 3 (hd (tasks demo_config)),
                                  useThinkingModel := False\<rparr>"]
    C8_batch_size [of "demo_config\<lparr>tasks := replicate 5 (hd (tasks demo_config))\<rparr>"]
  by (simp add: demo_config_def)

section \<open>The orchestration loop: closed forms and the run invariant\<close>

lemma last_batch_exit:
  assumes "\<not> batchEnd L < l_effectiveTotal L"
  shows "\<not> enat (l_i L) + l_BATCH_SIZE L < enat (l_effectiveTotal L)"
  using assms by (cases "l_BATCH_SIZE L") (auto simp: batchEnd_def split: if_splits)

lemma next_batch_start:
  assumes "batchEnd L < l_effectiveTotal L"
  shows "enat (l_i L) + l_BATCH_SIZE L = enat (batchEnd L)"
  using assms by (cases "l_BATCH_SIZE L") (auto simp: batchEnd_def split: if_splits)

lemma batchEnd_newData [simp]: "batchEnd (L\<lparr>l_newData := nd\<rparr>) = batchEnd L"
  by (simp add: batchEnd_def)

lemma continue_finishBatch:
  "continue (finishBatch s L) L =
     (if batchEnd L < l_effectiveTotal L
      then (s\<lparr>data := l_newData L, processedCount := batchEnd L\<rparr>, Some (AwaitDelay, L))
      else (s\<lparr>data := l_newData L, processedCount := batchEnd L, status := COMPLETED\<rparr>, None))"
proof (cases "batchEnd L < l_effectiveTotal L")
  case True
  then show ?thesis by (simp add: continue_def finishBatch_def)
next
  case False
  from last_batch_exit [OF False]
  have "forLoop (s\<lparr>data := l_newData L, processedCount := batchEnd L\<rparr>) L
          (enat (l_i L) + l_BATCH_SIZE L)
        = (s\<lparr>data := l_newData L, processedCount := batchEnd L, status := COMPLETED\<rparr>, None)"
    by (subst forLoop.simps) simp
  with False show ?thesis by (simp add: continue_def finishBatch_def)
qed

lemma continue_fireBatch:
  "continue (fireBatch s L) L =
     (if batchThrows L then (s\<lparr>invocations := invocations s @ batchRequests L\<rparr>, None)
      else if batchRequests L \<noteq> []
        then (s\<lparr>invocations := invocations s @ batchRequests L\<rparr>, Some (AwaitBatch, L))
      else continue (finishBatch (s\<lparr>invocations := invocations s @ batchRequests L\<rparr>) L) L)"
  by (simp add: fireBatch_def continue_def Let_def)

lemma forLoop_closed:
  "forLoop s L ie =
     (if ie < enat (l_effectiveTotal L) then
        (if isCancelledRef s then (s, None)
         else if isPausedRef s
           then (s\<lparr>resumeResolverRef := True\<rparr>, Some (AwaitResume, L\<lparr>l_i := the_enat ie\<rparr>))
         else continue (fireBatch s (L\<lparr>l_i := the_enat ie\<rparr>)) (L\<lparr>l_i := the_enat ie\<rparr>))
      else (s\<lparr>status := COMPLETED\<rparr>, None))"
proof (cases "ie < enat (l_effectiveTotal L)")
  case False
  then show ?thesis by (subst forLoop.simps) simp
next
  case True
  then obtain k where k: "ie = enat k" by (cases ie) auto
  show ?thesis
    using True unfolding k
    by (subst forLoop.simps) (simp add: loopBody_def continue_def split: Flow.splits)
qed

lemma length_writeResult [simp]: "length (writeResult config nd p) = length nd"
  by (simp add: writeResult_def Let_def)

lemma length_merge [simp]: "length (foldl (writeResult config) nd ps) = length nd"
  by (induction ps arbitrary: nd) simp_all

lemma promiseAll_length: "promiseAll ps = Inr rs \<Longrightarrow> length rs = length ps"
  by (induction ps arbitrary: rs rule: promiseAll.induct) (auto split: sum.splits)

lemma inv_continue_finish:
  assumes "length (l_newData L) = n" "l_config L = config"
    "l_effectiveTotal L = effectiveTotal config n" "l_BATCH_SIZE L = BATCH_SIZE config"
    "l_i L < l_effectiveTotal L"
  shows "run_inv config n (continue (finishBatch s L) L)
       \<and> data (fst (continue (finishBatch s L) L)) = l_newData L
       \<and> columns (fst (continue (finishBatch s L) L)) = columns s
       \<and> invocations (fst (continue (finishBatch s L) L)) = invocations s"
  using assms by (simp add: continue_finishBatch run_inv_def)

lemma inv_continue_fire:
  assumes "length (data s) = n" "l_config L = config" "l_newData L = data s"
    "l_effectiveTotal L = effectiveTotal config n" "l_BATCH_SIZE L = BATCH_SIZE config"
    "l_i L < l_effectiveTotal L"
  shows "run_inv config n (continue (fireBatch s L) L)
       \<and> data (fst (continue (fireBatch s L) L)) = data s
       \<and> columns (fst (continue (fireBatch s L) L)) = columns s
       \<and> invocations (fst (continue (fireBatch s L) L)) = invocations s @ batchRequests L"
  using assms by (simp add: continue_fireBatch continue_finishBatch run_inv_def)

lemma inv_forLoop:
  assumes "length (data s) = n" "l_config L = config" "l_newData L = data s"
    "l_effectiveTotal L = effectiveTotal config n" "l_BATCH_SIZE L = BATCH_SIZE config"
  shows "run_inv config n (forLoop s L ie) \<and> data (fst (forLoop s L ie)) = data s
       \<and> columns (fst (forLoop s L ie)) = columns s
       \<and> grown config s (fst (forLoop s L ie))"
proof (cases "ie < enat (l_effectiveTotal L)")
  case False
  then show ?thesis using assms by (simp add: forLoop_closed run_inv_def grown_def)
next
  case True
  then obtain k where k: "ie = enat k" by (cases ie) auto
  let ?L = "L\<lparr>l_i := k\<rparr>"
  show ?thesis
  proof (cases "isCancelledRef s \<or> isPausedRef s")
    case True
    with \<open>ie < enat (l_effectiveTotal L)\<close> k assms show ?thesis
      by (auto simp: forLoop_closed run_inv_def grown_def)
  next
    case False
    from \<open>ie < enat (l_effectiveTotal L)\<close> k assms inv_continue_fire [of s n ?L config]
    have "run_inv config n (continue (fireBatch s ?L) ?L)
       \<and> data (fst (continue (fireBatch s ?L) ?L)) = data s
       \<and> columns (fst (continue (fireBatch s ?L) ?L)) = columns s
       \<and> invocations (fst (continue (fireBatch s ?L) ?L)) = invocations s @ batchRequests ?L"
      by simp
    moreover from this assms have "grown config s (fst (continue (fireBatch s ?L) ?L))"
      unfolding grown_def by (intro disjI2 exI [of _ ?L]) simp
    moreover from False \<open>ie < enat (l_effectiveTotal L)\<close> k
    have "forLoop s L ie = continue (fireBatch s ?L) ?L"
      by (simp add: forLoop_closed)
    ultimately show ?thesis by simp
  qed
qed


lemma grown_refl: "grown config s s"
  by (simp add: grown_def)

lemma grown_eq:
  "grown config s1 s' \<Longrightarrow> invocations s1 = invocations s \<Longrightarrow> data s1 = data s
     \<Longrightarrow> grown config s s'"
  by (simp add: grown_def)

lemma inv_release:
  assumes "run_inv config n (s, susp)"
  shows "run_inv config n (release (s, susp)) \<and> data (fst (release (s, susp))) = data s
       \<and> columns (fst (release (s, susp))) = columns s
       \<and> grown config s (fst (release (s, susp)))"
proof (cases "resumeResolverRef s")
  case False
  with assms show ?thesis by (simp add: release_def grown_refl)
next
  case True
  show ?thesis
  proof (cases susp)
    case None
    with True assms show ?thesis by (simp add: release_def run_inv_def grown_def)
  next
    case (Some aL)
    obtain a L where aL: "aL = (a, L)" by (cases aL)
    show ?thesis
    proof (cases a)
      case AwaitResume
      let ?s = "s\<lparr>resumeResolverRef := False\<rparr>"
      from assms Some aL have L: "length (data s) = n" "l_config L = config"
        "l_newData L = data s" "l_effectiveTotal L = effectiveTotal config n"
        "l_BATCH_SIZE L = BATCH_SIZE config" "l_i L < l_effectiveTotal L"
        by (simp_all add: run_inv_def)
      have "run_inv config n (afterResume ?s L)
          \<and> data (fst (afterResume ?s L)) = data s
          \<and> columns (fst (afterResume ?s L)) = columns s
          \<and> grown config s (fst (afterResume ?s L))"
      proof (cases "isCancelledRef s")
        case True
        with L show ?thesis by (simp add: afterResume_def run_inv_def grown_def)
      next
        case False
        from inv_continue_fire [of ?s n L config] L
        have c: "run_inv config n (continue (fireBatch ?s L) L)
           \<and> data (fst (continue (fireBatch ?s L) L)) = data s
           \<and> columns (fst (continue (fireBatch ?s L) L)) = columns s
           \<and> invocations (fst (continue (fireBatch ?s L) L)) = invocations s @ batchRequests L"
          by simp
        then have "grown config s (fst (continue (fireBatch ?s L) L))"
          unfolding grown_def using L by (intro disjI2 exI [of _ L]) simp
        with c False show ?thesis by (simp add: afterResume_def)
      qed
      with True Some aL AwaitResume show ?thesis by (simp add: release_def)
    next
      case AwaitBatch
      with True Some aL assms show ?thesis by (simp add: release_def run_inv_def grown_def)
    next
      case AwaitDelay
      with True Some aL assms show ?thesis by (simp add: release_def run_inv_def grown_def)
    qed
  qed
qed

lemma inv_flags:
  "run_inv config n (s, susp) \<Longrightarrow>
     run_inv config n (s\<lparr>isPausedRef := p, status := st\<rparr>, susp) \<and>
     run_inv config n (s\<lparr>isCancelledRef := c, isPausedRef := p, status := st\<rparr>, susp)"
  by (auto simp: run_inv_def split: option.splits)

lemma inv_afterBatch:
  assumes "run_inv config n (s, Some (AwaitBatch, L))"
    and "length outcomes = length (batchRequests L)"
  shows "run_inv config n (afterBatch apiKey s L outcomes) \<and>
         columns (fst (afterBatch apiKey s L outcomes)) = columns s \<and>
         invocations (fst (afterBatch apiKey s L outcomes)) = invocations s \<and>
         (data (fst (afterBatch apiKey s L outcomes)) = data s \<or>
          (\<exists>results. length results = length (batchRequests L) \<and>
             promiseAll (map2 (invoke apiKey) (batchRequests L) outcomes) = Inr results \<and>
             data (fst (afterBatch apiKey s L outcomes))
               = foldl (writeResult config) (data s) (zip (batchRequests L) results)))"
proof (cases "promiseAll (map2 (invoke apiKey) (batchRequests L) outcomes)")
  case (Inl e)
  with assms show ?thesis by (simp add: afterBatch_def run_inv_def)
next
  case (Inr results)
  from assms(1) have L: "length (data s) = n" "l_config L = config"
    "l_newData L = data s" "l_effectiveTotal L = effectiveTotal config n"
    "l_BATCH_SIZE L = BATCH_SIZE config" "l_i L < l_effectiveTotal L"
    by (simp_all add: run_inv_def)
  define L' where "L' = L\<lparr>l_newData := foldl (writeResult config) (data s) (zip (batchRequests L) results)\<rparr>"
  define s' where "s' = s\<lparr>cellSources := cellSources s ++
      foldl (collectSources config) Map.empty (zip (batchRequests L) results)\<rparr>"
  have ab: "afterBatch apiKey s L outcomes = continue (finishBatch s' L') L'"
    using Inr L by (simp add: afterBatch_def Let_def L'_def s'_def)
  have len: "length results = length (batchRequests L)"
    using promiseAll_length [OF Inr] assms(2) by simp
  from inv_continue_finish [of L' n config s'] L
  have "run_inv config n (continue (finishBatch s' L') L')
      \<and> data (fst (continue (finishBatch s' L') L')) = l_newData L'
      \<and> columns (fst (continue (finishBatch s' L') L')) = columns s'
      \<and> invocations (fst (continue (finishBatch s' L') L')) = invocations s'"
    by (simp add: L'_def)
  with ab len Inr show ?thesis by (simp add: L'_def s'_def)
qed

lemma inv_step:
  assumes "run_inv config n \<sigma>" and "step apiKey \<sigma> ev = Some \<sigma>'"
  shows "run_inv config n \<sigma>' \<and> columns (fst \<sigma>') = columns (fst \<sigma>) \<and>
         grown config (fst \<sigma>) (fst \<sigma>') \<and>
         (data (fst \<sigma>') = data (fst \<sigma>) \<or>
          (\<exists>L results. snd \<sigma> = Some (AwaitBatch, L) \<and>
             length results = length (batchRequests L) \<and>
             data (fst \<sigma>')
               = foldl (writeResult config) (data (fst \<sigma>)) (zip (batchRequests L) results)))"
proof -
  obtain s susp where \<sigma>: "\<sigma> = (s, susp)" by (cases \<sigma>)
  show ?thesis
  proof (cases ev)
    case Pause
    with assms \<sigma> inv_flags [where config=config and n=n and s=s and susp=susp and p=True and st=PAUSED] show ?thesis
      by (auto simp: step_def handlePause_def grown_def)
  next
    case Resume
    let ?s = "s\<lparr>isPausedRef := False, status := PROCESSING\<rparr>"
    from assms(1) \<sigma> inv_flags [where config=config and n=n and s=s and susp=susp and p=False and st=PROCESSING]
    have "run_inv config n (?s, susp)" by simp
    from inv_release [OF this]
    have r: "run_inv config n (release (?s, susp))" "data (fst (release (?s, susp))) = data s"
      "columns (fst (release (?s, susp))) = columns s"
      "grown config ?s (fst (release (?s, susp)))"
      by simp_all
    from r(4) have "grown config s (fst (release (?s, susp)))" by (rule grown_eq) simp_all
    moreover from Resume assms(2) \<sigma> have "\<sigma>' = release (?s, susp)"
      by (simp add: step_def handleResume_def)
    ultimately show ?thesis using r \<sigma> by simp
  next
    case Cancel
    let ?s = "s\<lparr>isCancelledRef := True, isPausedRef := False, status := IDLE\<rparr>"
    from assms(1) \<sigma> inv_flags [where config=config and n=n and s=s and susp=susp and p=False and st=IDLE and c=True]
    have "run_inv config n (?s, susp)"
      by simp
    from inv_release [OF this]
    have r: "run_inv config n (release (?s, susp))" "data (fst (release (?s, susp))) = data s"
      "columns (fst (release (?s, susp))) = columns s"
      "grown config ?s (fst (release (?s, susp)))"
      by simp_all
    from r(4) have "grown config s (fst (release (?s, susp)))" by (rule grown_eq) simp_all
    moreover from Cancel assms(2) \<sigma> have "\<sigma>' = release (?s, susp)"
      by (simp add: step_def handleCancel_def)
    ultimately show ?thesis using r \<sigma> by simp
  next
    case (BatchSettled outcomes)
    with assms(2) \<sigma> obtain L where L: "susp = Some (AwaitBatch, L)"
      "length outcomes = length (batchRequests L)" "\<sigma>' = afterBatch apiKey s L outcomes"
      by (auto simp: step_def split: option.splits Await.splits if_splits)
    from assms(1) \<sigma> L(1) have "run_inv config n (s, Some (AwaitBatch, L))" by simp
    from inv_afterBatch [OF this L(2), of apiKey] L \<sigma> show ?thesis by (auto simp: grown_def)
  next
    case DelayElapsed
    with assms(2) \<sigma> obtain L where L: "susp = Some (AwaitDelay, L)" "\<sigma>' = afterDelay s L"
      by (auto simp: step_def split: option.splits Await.splits)
    from assms(1) \<sigma> L(1) have "length (data s) = n" "l_config L = config"
      "l_newData L = data s" "l_effectiveTotal L = effectiveTotal config n"
      "l_BATCH_SIZE L = BATCH_SIZE config"
      by (simp_all add: run_inv_def)
    from inv_forLoop [OF this] L(2) \<sigma> show ?thesis by (simp add: afterDelay_def)
  qed
qed

lemma start_forLoop:
  assumes "data s \<noteq> []"
  shows "\<exists>s2. handleStartResearch s config = forLoop s2 (initialLoop s config) 0 \<and>
          data s2 = data s \<and> invocations s2 = invocations s \<and>
          columns s2 = columns s @
            filter (\<lambda>name. name \<notin> set (columns s)) (map newColumnName (tasks config)) \<and>
          \<not> isCancelledRef s2 \<and> \<not> isPausedRef s2 \<and> status s2 = PROCESSING \<and>
          processedCount s2 = 0 \<and> activeConfig s2 = Some config \<and>
          cellSources s2 = cellSources s"
proof (cases "filter (\<lambda>name. name \<notin> set (columns s)) (map newColumnName (tasks config)) = []")
  case True
  with assms show ?thesis
    by (intro exI [of _ "s\<lparr>isPausedRef := False, isCancelledRef := False,
          resumeResolverRef := False, status := PROCESSING, activeConfig := Some config,
          processedCount := 0\<rparr>"])
       (simp add: handleStartResearch_def Let_def)
next
  case False
  with assms show ?thesis
    by (intro exI [of _ "s\<lparr>isPausedRef := False, isCancelledRef := False,
          resumeResolverRef := False, status := PROCESSING, activeConfig := Some config,
          processedCount := 0,
          columns := columns s @
            filter (\<lambda>name. name \<notin> set (columns s)) (map newColumnName (tasks config))\<rparr>"])
       (simp add: handleStartResearch_def Let_def)
qed

lemma inv_start:
  "run_inv config (length (data s)) (handleStartResearch s config) \<and>
   data (fst (handleStartResearch s config)) = data s \<and>
   grown config s (fst (handleStartResearch s config))"
proof (cases "data s = []")
  case True
  then show ?thesis by (simp add: handleStartResearch_def run_inv_def grown_refl)
next
  case False
  from start_forLoop [OF False, of config] obtain s2 where
    h: "handleStartResearch s config = forLoop s2 (initialLoop s config) 0"
    and d: "data s2 = data s" "invocations s2 = invocations s"
    by blast
  have "length (data s2) = length (data s)" "l_config (initialLoop s config) = config"
    "l_newData (initialLoop s config) = data s2"
    "l_effectiveTotal (initialLoop s config) = effectiveTotal config (length (data s))"
    "l_BATCH_SIZE (initialLoop s config) = BATCH_SIZE config"
    using d by (simp_all add: initialLoop_def)
  from inv_forLoop [OF this, of 0]
  have f: "run_inv config (length (data s)) (forLoop s2 (initialLoop s config) 0)"
      "data (fst (forLoop s2 (initialLoop s config) 0)) = data s2"
      "grown config s2 (fst (forLoop s2 (initialLoop s config) 0))"
    by simp_all
  from f(3) d(2,1) have "grown config s (fst (forLoop s2 (initialLoop s config) 0))"
    by (rule grown_eq)
  with f h d show ?thesis by simp
qed

lemma exec_invariant:
  assumes "exec apiKey \<sigma>0 evs = Some \<sigma>" and "P \<sigma>0"
    and "\<And>\<sigma>1 ev \<sigma>2. P \<sigma>1 \<Longrightarrow> step apiKey \<sigma>1 ev = Some \<sigma>2 \<Longrightarrow> P \<sigma>2"
  shows "P \<sigma>"
  using assms(1,2)
proof (induction evs arbitrary: \<sigma>0)
  case Nil
  then show ?case by simp
next
  case (Cons ev evs)
  then obtain \<sigma>1 where st: "step apiKey \<sigma>0 ev = Some \<sigma>1" and ex: "exec apiKey \<sigma>1 evs = Some \<sigma>"
    by (auto split: option.splits)
  from assms(3) [OF Cons.prems(2) st] have "P \<sigma>1" .
  from Cons.IH [OF ex this] show ?case .
qed

lemma inv_exec:
  assumes "exec apiKey (handleStartResearch s0 config) evs = Some \<sigma>"
  shows "run_inv config (length (data s0)) \<sigma>"
  by (rule exec_invariant [OF assms, where P = "run_inv config (length (data s0))"])
     (auto simp: inv_start dest: inv_step)

section \<open>Runs: rows that are never written, keys and columns, run control\<close>

lemma blank_entityName: "blankSubject config row \<Longrightarrow> entityName config row = Inr []"
proof -
  have "list_all (\<lambda>col. case row_get row col of
                       Undefined \<Rightarrow> True | Str v \<Rightarrow> trim v = [] | Inherited \<Rightarrow> False) cols
        \<Longrightarrow> filterE keepVal (map (\<lambda>col. row_get row col) cols) = Inr []" for cols
  proof (induction cols)
    case Nil
    then show ?case by simp
  next
    case (Cons col cols)
    then show ?case
      by (cases "row_get row col") (simp_all add: keepVal_cases keepVal_Str)
  qed
  then show "blankSubject config row \<Longrightarrow> entityName config row = Inr []"
    by (simp add: blankSubject_def entityName_def)
qed

lemma rowRequests_mem:
  assumes "rowRequests config nd j = Inr rs" and "rq \<in> set rs"
  shows "rowIndex rq = j \<and> taskIndex rq < length (tasks config) \<and>
         (\<exists>name. entityName config (nd ! j) = Inr name \<and> name \<noteq> [])"
proof (cases "entityName config (nd ! j)")
  case (Inl e)
  with assms show ?thesis by (simp add: rowRequests_def)
next
  case (Inr name)
  with assms show ?thesis by (auto simp: rowRequests_def split: if_splits)
qed

lemma collectRequests_mem:
  "rq \<in> set (fst (collectRequests config nd js)) \<Longrightarrow>
     rowIndex rq \<in> set js \<and> taskIndex rq < length (tasks config) \<and>
     (\<exists>name. entityName config (nd ! rowIndex rq) = Inr name \<and> name \<noteq> [])"
proof (induction js)
  case Nil
  then show ?case by simp
next
  case (Cons j js)
  show ?case
  proof (cases "rowRequests config nd j")
    case (Inl e)
    with Cons.prems show ?thesis by simp
  next
    case (Inr rs)
    with Cons.prems have "rq \<in> set rs \<or> rq \<in> set (fst (collectRequests config nd js))"
      by simp
    then show ?thesis
    proof
      assume "rq \<in> set rs"
      from rowRequests_mem [OF Inr this] show ?thesis by simp
    next
      assume "rq \<in> set (fst (collectRequests config nd js))"
      from Cons.IH [OF this] show ?thesis by simp
    qed
  qed
qed

lemma batchEnd_le: "batchEnd L \<le> l_effectiveTotal L"
  by (cases "l_BATCH_SIZE L") (auto simp: batchEnd_def)

lemma effectiveTotal_le: "effectiveTotal config n \<le> n"
  by (simp add: effectiveTotal_def Let_def)

lemma batchRequests_mem:
  "rq \<in> set (batchRequests L) \<Longrightarrow>
     l_i L \<le> rowIndex rq \<and> rowIndex rq < batchEnd L \<and>
     taskIndex rq < length (tasks (l_config L)) \<and>
     (\<exists>name. entityName (l_config L) (l_newData L ! rowIndex rq) = Inr name \<and> name \<noteq> [])"
  unfolding batchRequests_def by (drule collectRequests_mem) simp

lemma writeResult_other_row:
  "rowIndex (fst p) \<noteq> j \<Longrightarrow> writeResult config nd p ! j = nd ! j"
  by (simp add: writeResult_def Let_def)

lemma merge_other_row:
  "\<forall>p\<in>set ps. rowIndex (fst p) \<noteq> j \<Longrightarrow> foldl (writeResult config) nd ps ! j = nd ! j"
  by (induction ps arbitrary: nd) (simp_all add: writeResult_other_row)

text \<open>A row that is blank, or lies beyond the effective total, is never written.\<close>

lemma untouched_row:
  assumes ex: "exec apiKey (handleStartResearch s0 config) evs = Some \<sigma>"
    and j: "blankSubject config (data s0 ! j) \<or> effectiveTotal config (length (data s0)) \<le> j"
  shows "data (fst \<sigma>) ! j = data s0 ! j"
proof -
  let ?n = "length (data s0)"
  let ?P = "\<lambda>\<sigma>. run_inv config ?n \<sigma> \<and> data (fst \<sigma>) ! j = data s0 ! j"
  have "?P \<sigma>"
  proof (rule exec_invariant [OF ex, where P = ?P])
    show "?P (handleStartResearch s0 config)" by (simp add: inv_start)
  next
    fix \<sigma>1 ev \<sigma>2
    assume P: "?P \<sigma>1" and st: "step apiKey \<sigma>1 ev = Some \<sigma>2"
    from inv_step [OF conjunct1 [OF P] st]
    have inv2: "run_inv config ?n \<sigma>2"
      and d: "data (fst \<sigma>2) = data (fst \<sigma>1) \<or>
          (\<exists>L results. snd \<sigma>1 = Some (AwaitBatch, L) \<and>
             length results = length (batchRequests L) \<and>
             data (fst \<sigma>2)
               = foldl (writeResult config) (data (fst \<sigma>1)) (zip (batchRequests L) results))"
      by simp_all
    from d have "data (fst \<sigma>2) ! j = data (fst \<sigma>1) ! j"
    proof
      assume "data (fst \<sigma>2) = data (fst \<sigma>1)"
      then show ?thesis by simp
    next
      assume "\<exists>L results. snd \<sigma>1 = Some (AwaitBatch, L) \<and>
             length results = length (batchRequests L) \<and>
             data (fst \<sigma>2)
               = foldl (writeResult config) (data (fst \<sigma>1)) (zip (batchRequests L) results)"
      then obtain L results where L: "snd \<sigma>1 = Some (AwaitBatch, L)"
        and d2: "data (fst \<sigma>2)
               = foldl (writeResult config) (data (fst \<sigma>1)) (zip (batchRequests L) results)"
        by blast
      from P L have iL: "l_config L = config" "l_newData L = data (fst \<sigma>1)"
        "l_effectiveTotal L = effectiveTotal config ?n"
        by (simp_all add: run_inv_def)
      have "rowIndex rq \<noteq> j" if "rq \<in> set (batchRequests L)" for rq
      proof
        assume eq: "rowIndex rq = j"
        from batchRequests_mem [OF that] iL eq
        have "j < batchEnd L" "entityName config (data (fst \<sigma>1) ! j) \<noteq> Inr []" by auto
        with batchEnd_le [of L] iL P j blank_entityName [of config "data s0 ! j"]
        show False by auto
      qed
      then have "\<forall>p\<in>set (zip (batchRequests L) results). rowIndex (fst p) \<noteq> j"
        by (metis set_zip_leftD prod.collapse)
      from merge_other_row [OF this] d2 show ?thesis by simp
    qed
    with P inv2 show "?P \<sigma>2" by simp
  qed
  then show ?thesis by simp
qed

text \<open>A run makes no invocation for a row that is blank.\<close>

lemma blank_not_invoked:
  assumes ex: "exec apiKey (handleStartResearch s0 config) evs = Some \<sigma>"
    and j: "blankSubject config (data s0 ! j)"
  shows "filter (\<lambda>rq. rowIndex rq = j) (invocations (fst \<sigma>))
       = filter (\<lambda>rq. rowIndex rq = j) (invocations s0)"
proof -
  let ?n = "length (data s0)"
  let ?P = "\<lambda>\<sigma>. run_inv config ?n \<sigma> \<and> data (fst \<sigma>) ! j = data s0 ! j \<and>
     filter (\<lambda>rq. rowIndex rq = j) (invocations (fst \<sigma>))
       = filter (\<lambda>rq. rowIndex rq = j) (invocations s0)"
  have fresh: "filter (\<lambda>rq. rowIndex rq = j) (invocations s') = filter (\<lambda>rq. rowIndex rq = j) (invocations s)"
    if g: "grown config s s'" and d: "data s ! j = data s0 ! j" for s s'
  proof -
    from g consider "invocations s' = invocations s"
      | L where "l_config L = config" "l_newData L = data s"
          "invocations s' = invocations s @ batchRequests L"
      unfolding grown_def by blast
    then show ?thesis
    proof cases
      case 1
      then show ?thesis by simp
    next
      case 2
      have "rowIndex rq \<noteq> j" if "rq \<in> set (batchRequests L)" for rq
      proof
        assume eq: "rowIndex rq = j"
        from batchRequests_mem [OF that] 2 eq d
        have "entityName config (data s0 ! j) \<noteq> Inr []" by auto
        with blank_entityName [OF j] show False by simp
      qed
      then have "filter (\<lambda>rq. rowIndex rq = j) (batchRequests L) = []"
        by (simp add: filter_empty_conv)
      with 2 show ?thesis by simp
    qed
  qed
  have "?P \<sigma>"
  proof (rule exec_invariant [OF ex, where P = ?P])
    from inv_start [of config s0] fresh [of s0 "fst (handleStartResearch s0 config)"]
    show "?P (handleStartResearch s0 config)" by simp
  next
    fix \<sigma>1 ev \<sigma>2
    assume P: "?P \<sigma>1" and st: "step apiKey \<sigma>1 ev = Some \<sigma>2"
    from inv_step [OF conjunct1 [OF P] st]
    have inv2: "run_inv config ?n \<sigma>2" and g: "grown config (fst \<sigma>1) (fst \<sigma>2)"
      and d: "data (fst \<sigma>2) = data (fst \<sigma>1) \<or>
          (\<exists>L results. snd \<sigma>1 = Some (AwaitBatch, L) \<and>
             length results = length (batchRequests L) \<and>
             data (fst \<sigma>2)
               = foldl (writeResult config) (data (fst \<sigma>1)) (zip (batchRequests L) results))"
      by simp_all
    from d have "data (fst \<sigma>2) ! j = data (fst \<sigma>1) ! j"
    proof
      assume "data (fst \<sigma>2) = data (fst \<sigma>1)"
      then show ?thesis by simp
    next
      assume "\<exists>L results. snd \<sigma>1 = Some (AwaitBatch, L) \<and>
             length results = length (batchRequests L) \<and>
             data (fst \<sigma>2)
               = foldl (writeResult config) (data (fst \<sigma>1)) (zip (batchRequests L) results)"
      then obtain L results where L: "snd \<sigma>1 = Some (AwaitBatch, L)"
        and d2: "data (fst \<sigma>2)
               = foldl (writeResult config) (data (fst \<sigma>1)) (zip (batchRequests L) results)"
        by blast
      from P L have iL: "l_config L = config" "l_newData L = data (fst \<sigma>1)"
        by (simp_all add: run_inv_def)
      have "rowIndex rq \<noteq> j" if "rq \<in> set (batchRequests L)" for rq
      proof
        assume eq: "rowIndex rq = j"
        from batchRequests_mem [OF that] iL eq P
        have "entityName config (data s0 ! j) \<noteq> Inr []" by auto
        with blank_entityName [OF j] show False by simp
      qed
      then have "\<forall>p\<in>set (zip (batchRequests L) results). rowIndex (fst p) \<noteq> j"
        by (metis set_zip_leftD prod.collapse)
      from merge_other_row [OF this] d2 show ?thesis by simp
    qed
    with P inv2 fresh [OF g] show "?P \<sigma>2" by simp
  qed
  then show ?thesis by simp
qed

text \<open>
  C9.  Take any run of a configuration on a table, and any row each of whose target
  columns reads as \<open>undefined\<close> or as a string that is empty or white space only.  In
  every state the run reaches, whatever the user and the provider do, the run has made no
  invocation for that row, no batch in flight holds one, and the row, with all its task
  columns, is the one the run started with; in particular once the run has completed.
\<close>

theorem C9_blank_row_skipped:
  assumes "exec apiKey (handleStartResearch s0 config) evs = Some (s, susp)"
    and "j < length (data s0)"
    and "blankSubject config (data s0 ! j)"
  shows "data s ! j = data s0 ! j \<and>
         (\<forall>L. susp = Some (AwaitBatch, L) \<longrightarrow> (\<forall>rq\<in>set (batchRequests L). rowIndex rq \<noteq> j)) \<and>
         filter (\<lambda>rq. rowIndex rq = j) (invocations s)
           = filter (\<lambda>rq. rowIndex rq = j) (invocations s0)"
proof -
  from untouched_row [OF assms(1), of j] assms(3)
  have row: "data s ! j = data s0 ! j" by simp
  have "rowIndex rq \<noteq> j" if L: "susp = Some (AwaitBatch, L)" and rq: "rq \<in> set (batchRequests L)"
    for L rq
  proof
    assume eq: "rowIndex rq = j"
    from inv_exec [OF assms(1)] L have "l_config L = config" "l_newData L = data s"
      by (simp_all add: run_inv_def)
    with batchRequests_mem [OF rq] eq row have "entityName config (data s0 ! j) \<noteq> Inr []"
      by auto
    with blank_entityName [OF assms(3)] show False by simp
  qed
  with row blank_not_invoked [OF assms(1,3)] show ?thesis by auto
qed

lemma exec_Some_the: "exec apiKey \<sigma> evs \<noteq> None \<Longrightarrow>
   exec apiKey \<sigma> evs = Some (fst (the (exec apiKey \<sigma> evs)), snd (the (exec apiKey \<sigma> evs)))"
  by auto

theorem C9_blank_row_skipped_witness:
  "exec ''key'' (handleStartResearch demo_app demo_config) demo_events \<noteq> None \<and>
   1 < length (data demo_app) \<and> blankSubject demo_config (data demo_app ! 1) \<and>
   status (fst (the (exec ''key'' (handleStartResearch demo_app demo_config) demo_events))) = COMPLETED \<and>
   data (fst (the (exec ''key'' (handleStartResearch demo_app demo_config) demo_events))) ! 1
     = [(''Name'', ''  '')] \<and>
   map rowIndex (invocations (fst (the (exec ''key''
     (handleStartResearch demo_app demo_config) demo_events)))) = [0, 2] \<and>
   filter (\<lambda>rq. rowIndex rq = 1) (invocations (fst (the (exec ''key''
     (handleStartResearch demo_app demo_config) demo_events)))) = []"
proof -
  have ne: "exec ''key'' (handleStartResearch demo_app demo_config) demo_events \<noteq> None"
    by code_simp
  have len: "1 < length (data demo_app)" by (simp add: demo_app_def)
  have blank: "blankSubject demo_config (data demo_app ! 1)" by code_simp
  have fin: "status (fst (the (exec ''key'' (handleStartResearch demo_app demo_config) demo_events))) = COMPLETED"
    by code_simp
  have inv: "map rowIndex (invocations (fst (the (exec ''key''
     (handleStartResearch demo_app demo_config) demo_events)))) = [0, 2]"
    by code_simp
  have row: "data demo_app ! 1 = [(''Name'', ''  '')]" by (simp add: demo_app_def)
  have log: "invocations demo_app = []" by (simp add: demo_app_def)
  from C9_blank_row_skipped [OF exec_Some_the [OF ne] len blank] ne len blank fin row inv log
  show ?thesis by simp
qed

lemma keys_writeResult:
  assumes "\<forall>row\<in>set nd. fst ` set row \<subseteq> C"
    and "newColumnName (tasks config ! taskIndex (fst p)) \<in> C"
  shows "\<forall>row\<in>set (writeResult config nd p). fst ` set row \<subseteq> C"
proof (cases "rowIndex (fst p) < length nd")
  case False
  with assms(1) show ?thesis by (simp add: writeResult_def Let_def list_update_beyond)
next
  case True
  define new where "new = AList.update (newColumnName (tasks config ! taskIndex (fst p)))
      (res_text (snd p)) (nd ! rowIndex (fst p))"
  from True have "nd ! rowIndex (fst p) \<in> set nd" by simp
  with assms have new: "fst ` set new \<subseteq> C"
    by (simp add: new_def dom_update)
  show ?thesis
  proof
    fix row
    assume "row \<in> set (writeResult config nd p)"
    then have "row \<in> set (nd[rowIndex (fst p) := new])"
      by (simp add: writeResult_def Let_def new_def)
    with set_update_subset_insert [of nd "rowIndex (fst p)" new]
    have "row = new \<or> row \<in> set nd" by blast
    with new assms(1) show "fst ` set row \<subseteq> C" by blast
  qed
qed

lemma keys_merge:
  assumes "\<forall>row\<in>set nd. fst ` set row \<subseteq> C"
    and "\<forall>p\<in>set ps. newColumnName (tasks config ! taskIndex (fst p)) \<in> C"
  shows "\<forall>row\<in>set (foldl (writeResult config) nd ps). fst ` set row \<subseteq> C"
  using assms
proof (induction ps arbitrary: nd)
  case Nil
  then show ?case by simp
next
  case (Cons p ps)
  from keys_writeResult [of nd C config p] Cons.prems
  have "\<forall>row\<in>set (writeResult config nd p). fst ` set row \<subseteq> C" by simp
  from Cons.IH [OF this] Cons.prems(2) show ?case by simp
qed

lemma columns_start:
  assumes "data s0 \<noteq> []"
  shows "columns (fst (handleStartResearch s0 config)) =
       columns s0 @ filter (\<lambda>name. name \<notin> set (columns s0)) (map newColumnName (tasks config))"
proof -
  from start_forLoop [OF assms, of config] obtain s2 where
    h: "handleStartResearch s0 config = forLoop s2 (initialLoop s0 config) 0"
    and d: "data s2 = data s0"
    and c: "columns s2 = columns s0 @
            filter (\<lambda>name. name \<notin> set (columns s0)) (map newColumnName (tasks config))"
    by blast
  have "length (data s2) = length (data s0)" "l_config (initialLoop s0 config) = config"
    "l_newData (initialLoop s0 config) = data s2"
    "l_effectiveTotal (initialLoop s0 config) = effectiveTotal config (length (data s0))"
    "l_BATCH_SIZE (initialLoop s0 config) = BATCH_SIZE config"
    using d by (simp_all add: initialLoop_def)
  from inv_forLoop [OF this, of 0] h c show ?thesis by simp
qed

text \<open>
  C4 (as amended).  If every row's keys are among the table's columns before a run, they
  are in every state the run reaches.  The start appends the missing task column names
  to the column set, in task order, and leaves every row as it is: no row is padded.  A
  row that is skipped (blank subject) or lies beyond the row limit is never written, so
  it keeps its key set.
\<close>

theorem C4_keys_within_columns:
  assumes ex: "exec apiKey (handleStartResearch s0 config) evs = Some (s, susp)"
    and ne: "data s0 \<noteq> []"
    and sub: "\<forall>row\<in>set (data s0). fst ` set row \<subseteq> set (columns s0)"
  shows "columns s = columns s0 @
           filter (\<lambda>name. name \<notin> set (columns s0)) (map newColumnName (tasks config)) \<and>
         (\<forall>row\<in>set (data s). fst ` set row \<subseteq> set (columns s)) \<and>
         data (fst (handleStartResearch s0 config)) = data s0 \<and>
         (\<forall>j. blankSubject config (data s0 ! j) \<or> effectiveTotal config (length (data s0)) \<le> j
              \<longrightarrow> data s ! j = data s0 ! j)"
proof -
  let ?n = "length (data s0)"
  let ?cols = "columns s0 @
     filter (\<lambda>name. name \<notin> set (columns s0)) (map newColumnName (tasks config))"
  let ?P = "\<lambda>\<sigma>. run_inv config ?n \<sigma> \<and> columns (fst \<sigma>) = ?cols \<and>
               (\<forall>row\<in>set (data (fst \<sigma>)). fst ` set row \<subseteq> set ?cols)"
  have task_col: "newColumnName (tasks config ! t) \<in> set ?cols" if "t < length (tasks config)" for t
    using that by (auto simp: nth_mem)
  have "?P (s, susp)"
  proof (rule exec_invariant [OF ex, where P = ?P])
    from sub show "?P (handleStartResearch s0 config)"
      by (auto simp: inv_start columns_start [OF ne])
  next
    fix \<sigma>1 ev \<sigma>2
    assume P: "?P \<sigma>1" and st: "step apiKey \<sigma>1 ev = Some \<sigma>2"
    from inv_step [OF conjunct1 [OF P] st]
    have inv2: "run_inv config ?n \<sigma>2" and c2: "columns (fst \<sigma>2) = columns (fst \<sigma>1)"
      and d: "data (fst \<sigma>2) = data (fst \<sigma>1) \<or>
          (\<exists>L results. snd \<sigma>1 = Some (AwaitBatch, L) \<and>
             length results = length (batchRequests L) \<and>
             data (fst \<sigma>2)
               = foldl (writeResult config) (data (fst \<sigma>1)) (zip (batchRequests L) results))"
      by simp_all
    from d have "\<forall>row\<in>set (data (fst \<sigma>2)). fst ` set row \<subseteq> set ?cols"
    proof
      assume "data (fst \<sigma>2) = data (fst \<sigma>1)"
      with P show ?thesis by simp
    next
      assume "\<exists>L results. snd \<sigma>1 = Some (AwaitBatch, L) \<and>
             length results = length (batchRequests L) \<and>
             data (fst \<sigma>2)
               = foldl (writeResult config) (data (fst \<sigma>1)) (zip (batchRequests L) results)"
      then obtain L results where L: "snd \<sigma>1 = Some (AwaitBatch, L)"
        and d2: "data (fst \<sigma>2)
               = foldl (writeResult config) (data (fst \<sigma>1)) (zip (batchRequests L) results)"
        by blast
      from P L have iL: "l_config L = config" by (simp add: run_inv_def)
      have "newColumnName (tasks config ! taskIndex (fst p)) \<in> set ?cols"
        if "p \<in> set (zip (batchRequests L) results)" for p
      proof -
        from that have "fst p \<in> set (batchRequests L)" by (metis set_zip_leftD prod.collapse)
        from batchRequests_mem [OF this] iL have "taskIndex (fst p) < length (tasks config)"
          by simp
        then show ?thesis by (rule task_col)
      qed
      with keys_merge [of "data (fst \<sigma>1)" "set ?cols" "zip (batchRequests L) results" config] P d2
      show ?thesis by simp
    qed
    with P inv2 c2 show "?P \<sigma>2" by simp
  qed
  moreover have "data s ! j = data s0 ! j"
    if "blankSubject config (data s0 ! j) \<or> effectiveTotal config ?n \<le> j" for j
    using untouched_row [OF ex that] by simp
  ultimately show ?thesis by (simp add: inv_start)
qed


theorem C4_keys_within_columns_witness:
  "exec ''key'' (handleStartResearch demo_app demo_config) demo_events \<noteq> None \<and>
   data demo_app \<noteq> [] \<and>
   list_all (\<lambda>row. fst ` set row \<subseteq> set (columns demo_app)) (data demo_app) \<and>
   columns (fst (the (exec ''key'' (handleStartResearch demo_app demo_config) demo_events)))
     = [''Name'', ''CEO''] \<and>
   list_all (\<lambda>row. fst ` set row \<subseteq> {''Name'', ''CEO''})
     (data (fst (the (exec ''key'' (handleStartResearch demo_app demo_config) demo_events)))) \<and>
   data (fst (the (exec ''key'' (handleStartResearch demo_app demo_config) demo_events))) ! 1
     = [(''Name'', ''  '')]"
proof -
  have ne: "exec ''key'' (handleStartResearch demo_app demo_config) demo_events \<noteq> None"
    by code_simp
  have d: "data demo_app \<noteq> []" by (simp add: demo_app_def)
  have sub: "\<forall>row\<in>set (data demo_app). fst ` set row \<subseteq> set (columns demo_app)"
    by (simp add: demo_app_def)
  have blank: "blankSubject demo_config (data demo_app ! 1)" by code_simp
  have row: "data demo_app ! 1 = [(''Name'', ''  '')]" by (simp add: demo_app_def)
  have cols: "columns demo_app @ filter (\<lambda>name. name \<notin> set (columns demo_app))
       (map newColumnName (tasks demo_config)) = [''Name'', ''CEO'']"
    by (simp add: demo_app_def demo_config_def)
  note run = C4_keys_within_columns [OF exec_Some_the [OF ne] d sub]
  from run cols
  have c: "columns (fst (the (exec ''key'' (handleStartResearch demo_app demo_config)
        demo_events))) = [''Name'', ''CEO'']"
    by simp
  from run c
  have k: "\<forall>row\<in>set (data (fst (the (exec ''key'' (handleStartResearch demo_app demo_config)
        demo_events)))). fst ` set row \<subseteq> {''Name'', ''CEO''}"
    by simp
  from run blank row
  have r: "data (fst (the (exec ''key'' (handleStartResearch demo_app demo_config)
        demo_events))) ! 1 = [(''Name'', ''  '')]"
    by simp
  from ne d sub c k r show ?thesis unfolding list_all_iff by blast
qed

text \<open>
  C4 as stated fails: after the start, and still after the completed run, the column set
  holds \<open>CEO\<close> while the skipped second row has the key \<open>Name\<close> only.
\<close>

theorem C4_no_padding_counterexample:
  "status (fst (the (exec ''key'' (handleStartResearch demo_app demo_config) demo_events)))
     = COMPLETED \<and>
   columns (fst (the (exec ''key'' (handleStartResearch demo_app demo_config) demo_events)))
     = [''Name'', ''CEO''] \<and>
   map fst (data (fst (the (exec ''key'' (handleStartResearch demo_app demo_config)
     demo_events))) ! 1) = [''Name''] \<and>
   map (map fst) (data (fst (handleStartResearch demo_app demo_config)))
     = [[''Name''], [''Name''], [''Name'']]"
  by code_simp

text \<open>
  C3 (as amended).  The start operation does not look at the run state.  It is a no-op
  on an empty table only.  On a non-empty table its outcome is the same whatever the
  state, the counter, the flags, the resolver slot and the recorded configuration were
  before: it clears the pause and cancel flags, records the configuration, sets the
  counter to 0 and the state to Processing, and runs the loop.  When the call comes to
  rest, the counter is 0 if the first batch is in flight or its preparation has raised,
  and the end of the first batch otherwise; the state is Processing unless the run has
  ended at once, in which case it is Completed.  Only the user interface keeps a second
  run from being started.
\<close>

theorem C3_start_ignores_status:
  "(data s = [] \<longrightarrow> handleStartResearch s config = (s, None)) \<and>
   (data s \<noteq> [] \<longrightarrow>
      handleStartResearch
        (s\<lparr>status := st, processedCount := n, isPausedRef := p, isCancelledRef := c,
           resumeResolverRef := r, activeConfig := a\<rparr>) config
        = handleStartResearch s config \<and>
      processedCount (fst (handleStartResearch s config))
        = (if batchThrows (initialLoop s config) \<or> batchRequests (initialLoop s config) \<noteq> []
           then 0 else batchEnd (initialLoop s config)) \<and>
      status (fst (handleStartResearch s config))
        = (if batchThrows (initialLoop s config) \<or> batchRequests (initialLoop s config) \<noteq> []
              \<or> batchEnd (initialLoop s config) < l_effectiveTotal (initialLoop s config)
           then PROCESSING else COMPLETED) \<and>
      status (fst (handleStartResearch s config)) \<in> {PROCESSING, COMPLETED} \<and>
      activeConfig (fst (handleStartResearch s config)) = Some config \<and>
      \<not> isCancelledRef (fst (handleStartResearch s config)) \<and>
      \<not> isPausedRef (fst (handleStartResearch s config)))"
proof (cases "data s = []")
  case True
  then show ?thesis by (simp add: handleStartResearch_def)
next
  case False
  let ?L = "initialLoop s config"
  have il: "initialLoop (s\<lparr>status := st, processedCount := n, isPausedRef := p,
      isCancelledRef := c, resumeResolverRef := r, activeConfig := a\<rparr>) config = ?L"
    by (simp add: initialLoop_def)
  have eq: "handleStartResearch
        (s\<lparr>status := st, processedCount := n, isPausedRef := p, isCancelledRef := c,
           resumeResolverRef := r, activeConfig := a\<rparr>) config
        = handleStartResearch s config"
    using False unfolding handleStartResearch_def il by (simp add: Let_def)
  from False have pos: "(0::enat) < enat (l_effectiveTotal ?L)"
    by (cases "data s") (auto simp: initialLoop_def effectiveTotal_def Let_def zero_enat_def
        split: option.splits)
  have i0: "?L\<lparr>l_i := the_enat 0\<rparr> = ?L"
    by (simp add: initialLoop_def zero_enat_def)
  from start_forLoop [OF False, of config] obtain s2 where
    h: "handleStartResearch s config = forLoop s2 ?L 0"
    and s2: "\<not> isCancelledRef s2" "\<not> isPausedRef s2" "status s2 = PROCESSING"
      "processedCount s2 = 0" "activeConfig s2 = Some config"
    by blast
  from pos s2 have "forLoop s2 ?L 0 = continue (fireBatch s2 ?L) ?L"
    by (simp add: forLoop_closed i0)
  with h have c: "handleStartResearch s config = continue (fireBatch s2 ?L) ?L" by simp
  from s2 have
    "processedCount (fst (continue (fireBatch s2 ?L) ?L))
        = (if batchThrows ?L \<or> batchRequests ?L \<noteq> [] then 0 else batchEnd ?L)"
    "status (fst (continue (fireBatch s2 ?L) ?L))
        = (if batchThrows ?L \<or> batchRequests ?L \<noteq> [] \<or> batchEnd ?L < l_effectiveTotal ?L
           then PROCESSING else COMPLETED)"
    "activeConfig (fst (continue (fireBatch s2 ?L) ?L)) = Some config"
    "\<not> isCancelledRef (fst (continue (fireBatch s2 ?L) ?L))"
    "\<not> isPausedRef (fst (continue (fireBatch s2 ?L) ?L))"
    by (simp_all add: continue_fireBatch continue_finishBatch)
  with c eq False show ?thesis by simp
qed

theorem C3_start_ignores_status_witness:
  "data demo_app \<noteq> [] \<and>
   handleStartResearch (demo_app\<lparr>status := PAUSED, processedCount := 7, isPausedRef := True,
       isCancelledRef := True, resumeResolverRef := True, activeConfig := None\<rparr>) demo_config
     = handleStartResearch demo_app demo_config \<and>
   processedCount (fst (handleStartResearch (demo_app\<lparr>status := PAUSED, processedCount := 7,
       isPausedRef := True, isCancelledRef := True, resumeResolverRef := True,
       activeConfig := None\<rparr>) demo_config)) = 0 \<and>
   status (fst (handleStartResearch (demo_app\<lparr>status := PAUSED, processedCount := 7,
       isPausedRef := True, isCancelledRef := True, resumeResolverRef := True,
       activeConfig := None\<rparr>) demo_config)) = PROCESSING \<and>
   handleStartResearch (demo_app\<lparr>data := []\<rparr>) demo_config = (demo_app\<lparr>data := []\<rparr>, None)"
proof -
  have d: "data demo_app \<noteq> []" by (simp add: demo_app_def)
  have e: "data (demo_app\<lparr>data := []\<rparr>) = []" by simp
  have rq: "batchRequests (initialLoop demo_app demo_config) \<noteq> []" by code_simp
  from C3_start_ignores_status [where s=demo_app and config=demo_config and st=PAUSED and n=7
      and p=True and c=True and r=True and a=None]
    C3_start_ignores_status [where s="demo_app\<lparr>data := []\<rparr>" and config=demo_config
      and st=PAUSED and n=7 and p=True and c=True and r=True and a=None]
    d e rq
  show ?thesis by simp
qed

text \<open>
  C3 as stated fails: in the paused state reached after the first batch, with two rows
  processed, the start operation sets the state to Processing and the counter to 0.
\<close>

theorem C3_restart_counterexample:
  "status (fst (the (exec ''key'' (handleStartResearch demo_app demo_config)
      [BatchSettled [ProviderFailed], Pause]))) = PAUSED \<and>
   processedCount (fst (the (exec ''key'' (handleStartResearch demo_app demo_config)
      [BatchSettled [ProviderFailed], Pause]))) = 2 \<and>
   status (fst (handleStartResearch (fst (the (exec ''key''
      (handleStartResearch demo_app demo_config) [BatchSettled [ProviderFailed], Pause])))
      demo_config)) = PROCESSING \<and>
   processedCount (fst (handleStartResearch (fst (the (exec ''key''
      (handleStartResearch demo_app demo_config) [BatchSettled [ProviderFailed], Pause])))
      demo_config)) = 0"
  by code_simp

text \<open>
  C2 does not hold of the code: when \<open>cancel()\<close> is issued while the final batch is in
  flight the state is Idle, and it becomes Completed once the batch has settled, since
  the cancel flag is only tested at the top of an iteration.
\<close>

theorem C2_cancel_in_final_batch:
  "status (fst (the (exec ''key'' (handleStartResearch demo_app demo_config)
      [BatchSettled [ProviderFailed], DelayElapsed, Cancel]))) = IDLE \<and>
   isCancelledRef (fst (the (exec ''key'' (handleStartResearch demo_app demo_config)
      [BatchSettled [ProviderFailed], DelayElapsed, Cancel]))) \<and>
   status (fst (the (exec ''key'' (handleStartResearch demo_app demo_config)
      [BatchSettled [ProviderFailed], DelayElapsed, Cancel,
       BatchSettled [ProviderResponse (Some ''Jane Roe'') None]]))) = COMPLETED"
  by code_simp

lemma exec_append:
  "exec apiKey \<sigma> (evs @ evs') =
     (case exec apiKey \<sigma> evs of None \<Rightarrow> None | Some \<sigma>' \<Rightarrow> exec apiKey \<sigma>' evs')"
  by (induction evs arbitrary: \<sigma>) (auto split: option.splits)

lemma exec_pauses:
  "exec apiKey (s, susp) (replicate n Pause) =
     Some (if n = 0 then s else handlePause s, susp)"
proof (induction n arbitrary: s)
  case 0
  then show ?case by simp
next
  case (Suc n)
  have "handlePause (handlePause s) = handlePause s" by (simp add: handlePause_def)
  with Suc [of "handlePause s"] show ?case by (simp add: step_def)
qed

text \<open>
  C5.  In any state of a run in which the call is suspended waiting for \<open>resume\<close>,
  \<open>cancel()\<close>, after any number of further \<open>pause()\<close> calls, ends the call at the
  check that follows the suspension: the state is Idle, the table, the counter, the
  sources and the log of invocations are those at the suspension, and no batch or delay
  is pending.  Time is not part of the state, so this holds however long the suspension
  has lasted.
\<close>

theorem C5_cancel_while_paused:
  assumes "exec apiKey (handleStartResearch s0 config) evs = Some (s, Some (AwaitResume, L))"
  shows "\<exists>s'. exec apiKey (s, Some (AwaitResume, L)) (replicate n Pause @ [Cancel]) = Some (s', None) \<and>
          status s' = IDLE \<and> data s' = data s \<and> processedCount s' = processedCount s \<and>
          cellSources s' = cellSources s \<and> invocations s' = invocations s \<and>
          step apiKey (s', None) DelayElapsed = None \<and>
          step apiKey (s', None) (BatchSettled outcomes) = None"
proof -
  from inv_exec [OF assms] have r: "resumeResolverRef s" by (simp add: run_inv_def)
  have "step apiKey (if n = 0 then s else handlePause s, Some (AwaitResume, L)) Cancel
      = Some (s\<lparr>isCancelledRef := True, isPausedRef := False, status := IDLE,
               resumeResolverRef := False\<rparr>, None)"
    using r by (simp add: step_def handleCancel_def release_def afterResume_def handlePause_def)
  then have "exec apiKey (s, Some (AwaitResume, L)) (replicate n Pause @ [Cancel])
      = Some (s\<lparr>isCancelledRef := True, isPausedRef := False, status := IDLE,
               resumeResolverRef := False\<rparr>, None)"
    by (simp add: exec_append exec_pauses)
  then show ?thesis by (simp add: step_def)
qed

theorem C5_cancel_while_paused_witness:
  "map_option (\<lambda>\<sigma>. map_option fst (snd \<sigma>))
     (exec ''key'' (handleStartResearch demo_app demo_config)
        [Pause, BatchSettled [ProviderFailed], DelayElapsed]) = Some (Some AwaitResume) \<and>
   status (fst (the (exec ''key'' (handleStartResearch demo_app demo_config)
        [Pause, BatchSettled [ProviderFailed], DelayElapsed, Cancel]))) = IDLE \<and>
   snd (the (exec ''key'' (handleStartResearch demo_app demo_config)
        [Pause, BatchSettled [ProviderFailed], DelayElapsed, Cancel])) = None"
proof -
  let ?evs = "[Pause, BatchSettled [ProviderFailed], DelayElapsed]"
  let ?X = "exec ''key'' (handleStartResearch demo_app demo_config) ?evs"
  have a: "map_option (\<lambda>\<sigma>. map_option fst (snd \<sigma>)) ?X = Some (Some AwaitResume)"
    by code_simp
  then obtain s L where X: "?X = Some (s, Some (AwaitResume, L))" by auto
  from C5_cancel_while_paused [OF X, of 0]
  obtain s' where c: "exec ''key'' (s, Some (AwaitResume, L)) [Cancel] = Some (s', None)"
    and i: "status s' = IDLE"
    by auto
  have "exec ''key'' (handleStartResearch demo_app demo_config) (?evs @ [Cancel])
      = Some (s', None)"
    unfolding exec_append X using c by simp
  with i a show ?thesis by simp
qed

section \<open>Merging the results of a batch\<close>

lemma row_get_update:
  "row_get (AList.update k v row) c = (if c = k then Str v else row_get row c)"
  by (simp add: row_get_def update_conv')

lemma writeResult_cell:
  assumes "rowIndex (fst p) < length nd"
  shows "row_get (writeResult config nd p ! r) c =
     (if r = rowIndex (fst p) \<and> c = newColumnName (tasks config ! taskIndex (fst p))
      then Str (res_text (snd p)) else row_get (nd ! r) c)"
  using assms by (simp add: writeResult_def Let_def nth_list_update row_get_update)

lemma map_index: "map (\<lambda>i. f (xs ! i)) [0..<length xs] = map f xs"
proof -
  have "map (\<lambda>i. f (xs ! i)) [0..<length xs] = map f (map (\<lambda>i. xs ! i) [0..<length xs])"
    by (simp add: comp_def)
  also have "\<dots> = map f xs" by (simp only: map_nth)
  finally show ?thesis .
qed

lemma rowRequests_keys:
  assumes "rowRequests config nd j = Inr rs"
  shows "map (cellKey config) rs = [] \<or>
         map (cellKey config) rs = map (\<lambda>t. (j, newColumnName t)) (tasks config)"
proof (cases "entityName config (nd ! j)")
  case (Inl e)
  with assms show ?thesis by (simp add: rowRequests_def)
next
  case (Inr name)
  show ?thesis
  proof (cases "name = []")
    case True
    with Inr assms show ?thesis by (auto simp: rowRequests_def)
  next
    case False
    with Inr assms have "map (cellKey config) rs
        = map (\<lambda>i. (j, newColumnName (tasks config ! i))) [0..<length (tasks config)]"
      by (auto simp: rowRequests_def comp_def)
    also have "\<dots> = map (\<lambda>t. (j, newColumnName t)) (tasks config)"
      by (rule map_index)
    finally show ?thesis by simp
  qed
qed

lemma distinct_row_keys:
  assumes "distinct (map newColumnName (tasks config))" and "rowRequests config nd j = Inr rs"
  shows "distinct (map (cellKey config) rs)"
proof -
  from assms(1) have "distinct (map (\<lambda>t. (j, newColumnName t)) (tasks config))"
    by (auto simp: distinct_map inj_on_def)
  with rowRequests_keys [OF assms(2)] show ?thesis by auto
qed

lemma distinct_batch_keys:
  assumes "distinct (map newColumnName (tasks config))" and "distinct js"
  shows "distinct (map (cellKey config) (fst (collectRequests config nd js)))"
  using assms(2)
proof (induction js)
  case Nil
  then show ?case by simp
next
  case (Cons j js)
  show ?case
  proof (cases "rowRequests config nd j")
    case (Inl e)
    then show ?thesis by simp
  next
    case (Inr rs)
    have "fst ` set (map (cellKey config) rs) \<subseteq> {j}"
      using rowRequests_mem [OF Inr] by auto
    moreover have "fst ` set (map (cellKey config) (fst (collectRequests config nd js)))
        \<subseteq> set js"
      by (auto dest: collectRequests_mem)
    moreover from Cons.prems have "j \<notin> set js" by simp
    ultimately have "set (map (cellKey config) rs) \<inter>
        set (map (cellKey config) (fst (collectRequests config nd js))) = {}"
      by fastforce
    with Cons Inr distinct_row_keys [OF assms(1) Inr] show ?thesis by simp
  qed
qed

lemma promiseAll_Inr:
  "\<forall>p\<in>set ps. \<exists>r. p = Inr r \<Longrightarrow> promiseAll ps = Inr (map projr ps)"
  by (induction ps rule: promiseAll.induct) auto

lemma invoke_with_key: "apiKey \<noteq> [] \<Longrightarrow> \<exists>r. invoke apiKey rq outcome = Inr r"
  by (auto simp: invoke_def researchEntity_def split: ProviderOutcome.splits)

lemma invoke_Inr_key: "invoke apiKey rq outcome = Inr r \<Longrightarrow> apiKey \<noteq> []"
  by (auto simp: invoke_def researchEntity_def)


lemma afterBatch_settled:
  assumes "promiseAll (map2 (invoke apiKey) (batchRequests L) outcomes) = Inr results"
  shows "afterBatch apiKey s L outcomes =
     (let merged = foldl (writeResult (l_config L)) (l_newData L) (zip (batchRequests L) results);
          L' = L\<lparr>l_newData := merged\<rparr>;
          s' = s\<lparr>cellSources := cellSources s ++
                   foldl (collectSources (l_config L)) Map.empty (zip (batchRequests L) results),
                 data := merged, processedCount := batchEnd L\<rparr>
      in if batchEnd L < l_effectiveTotal L then (s', Some (AwaitDelay, L'))
         else (s'\<lparr>status := COMPLETED\<rparr>, None))"
  using assms by (simp add: afterBatch_def Let_def continue_finishBatch)

lemma laterWrite_iff:
  "laterWrite config rqs k \<longleftrightarrow>
     (\<exists>k'. k < k' \<and> k' < length rqs \<and> cellKey config (rqs ! k') = cellKey config (rqs ! k))"
proof
  assume "laterWrite config rqs k"
  then obtain rq where "rq \<in> set (drop (Suc k) rqs)"
    and eq: "cellKey config rq = cellKey config (rqs ! k)"
    unfolding laterWrite_def list_ex_iff by blast
  then obtain i where i: "i < length (drop (Suc k) rqs)" and "drop (Suc k) rqs ! i = rq"
    unfolding in_set_conv_nth by blast
  with eq have e: "cellKey config (drop (Suc k) rqs ! i) = cellKey config (rqs ! k)"
    by simp
  from i have "Suc k + i < length rqs" by simp
  moreover from this e have "cellKey config (rqs ! (Suc k + i)) = cellKey config (rqs ! k)"
    by simp
  ultimately show "\<exists>k'. k < k' \<and> k' < length rqs \<and>
      cellKey config (rqs ! k') = cellKey config (rqs ! k)"
    by (intro exI [of _ "Suc k + i"]) simp
next
  assume "\<exists>k'. k < k' \<and> k' < length rqs \<and> cellKey config (rqs ! k') = cellKey config (rqs ! k)"
  then obtain k' where k': "k < k'" "k' < length rqs"
    and e: "cellKey config (rqs ! k') = cellKey config (rqs ! k)"
    by blast
  from k' have i: "k' - Suc k < length (drop (Suc k) rqs)"
    and d: "drop (Suc k) rqs ! (k' - Suc k) = rqs ! k'"
    by simp_all
  from i have "drop (Suc k) rqs ! (k' - Suc k) \<in> set (drop (Suc k) rqs)"
    by (rule nth_mem)
  with d have "rqs ! k' \<in> set (drop (Suc k) rqs)" by simp
  with e show "laterWrite config rqs k"
    unfolding laterWrite_def list_ex_iff by blast
qed

lemma merge_cell_last:
  assumes "\<forall>p\<in>set ps. rowIndex (fst p) < length nd"
    and "k < length ps"
    and "\<forall>k'. k < k' \<and> k' < length ps \<longrightarrow>
           cellKey config (fst (ps ! k')) \<noteq> cellKey config (fst (ps ! k))"
  shows "row_get (foldl (writeResult config) nd ps ! rowIndex (fst (ps ! k)))
           (newColumnName (tasks config ! taskIndex (fst (ps ! k))))
         = Str (res_text (snd (ps ! k)))"
  using assms
proof (induction ps rule: rev_induct)
  case Nil
  then show ?case by simp
next
  case (snoc p ps)
  let ?nd = "foldl (writeResult config) nd ps"
  from snoc.prems(1) have len: "rowIndex (fst p) < length ?nd" by simp
  show ?case
  proof (cases "k < length ps")
    case False
    with snoc.prems(2) have "k = length ps" by simp
    with len show ?thesis by (simp add: writeResult_cell)
  next
    case True
    from snoc.prems(3) [rule_format, of "length ps"] True
    have ne: "cellKey config (fst p) \<noteq> cellKey config (fst (ps ! k))"
      by (simp add: nth_append)
    have "\<forall>k'. k < k' \<and> k' < length ps \<longrightarrow>
           cellKey config (fst (ps ! k')) \<noteq> cellKey config (fst (ps ! k))"
    proof (intro allI impI)
      fix k' assume k': "k < k' \<and> k' < length ps"
      with snoc.prems(3) [rule_format, of k'] True
      show "cellKey config (fst (ps ! k')) \<noteq> cellKey config (fst (ps ! k))"
        by (simp add: nth_append)
    qed
    with snoc.IH snoc.prems(1) True
    have "row_get (?nd ! rowIndex (fst (ps ! k)))
           (newColumnName (tasks config ! taskIndex (fst (ps ! k))))
         = Str (res_text (snd (ps ! k)))"
      by simp
    with ne True len show ?thesis by (auto simp: writeResult_cell nth_append)
  qed
qed

lemma distinct_no_laterWrite:
  assumes "distinct (map (cellKey config) rqs)" and "k < length rqs"
  shows "\<not> laterWrite config rqs k"
proof
  assume "laterWrite config rqs k"
  then obtain k' where k': "k < k'" "k' < length rqs"
    and e: "cellKey config (rqs ! k') = cellKey config (rqs ! k)"
    unfolding laterWrite_iff by blast
  from assms k' have "map (cellKey config) rqs ! k' \<noteq> map (cellKey config) rqs ! k"
    by (simp add: nth_eq_iff_index_eq del: nth_map)
  with k' assms(2) e show False by simp
qed


text \<open>
  C6.  Take any state of a run in which a batch is in flight, and provider outcomes for
  the batch such that one invocation returns \<open>{text: "Error", sources: []}\<close>.  When the
  batch settles, every invocation of the batch has returned a result, and the text of each
  one is in its row's task column of the published table, unless a later invocation of the
  batch was written to the same cell; that cannot happen when the task column names are
  pairwise different.  The counter stands at the end of the batch.  When rows remain, the
  call waits for the delay, and when the delay has elapsed, no \<open>cancel()\<close> or
  \<open>pause()\<close> having been issued, the invocations of the next batch, which starts at the
  row where this one ended, are made, and that batch is in flight unless it is empty or its
  preparation raises.  When no row remains the run is Completed.
\<close>

theorem C6_isolated_failure:
  assumes ex: "exec apiKey (handleStartResearch s0 config) evs = Some (s, Some (AwaitBatch, L))"
    and len: "length outcomes = length (batchRequests L)"
    and m: "m < length (batchRequests L)"
    and err: "invoke apiKey (batchRequests L ! m) (outcomes ! m)
                = Inr \<lparr>res_text = ''Error'', res_sources = []\<rparr>"
  shows "\<exists>s' susp'.
      step apiKey (s, Some (AwaitBatch, L)) (BatchSettled outcomes) = Some (s', susp') \<and>
      (\<forall>k<length (batchRequests L). \<exists>r.
          invoke apiKey (batchRequests L ! k) (outcomes ! k) = Inr r \<and>
          (\<not> laterWrite config (batchRequests L) k \<longrightarrow>
             row_get (data s' ! rowIndex (batchRequests L ! k))
                     (newColumnName (tasks config ! taskIndex (batchRequests L ! k)))
               = Str (res_text r))) \<and>
      (distinct (map newColumnName (tasks config)) \<longrightarrow>
         (\<forall>k<length (batchRequests L). \<not> laterWrite config (batchRequests L) k)) \<and>
      processedCount s' = batchEnd L \<and>
      (if batchEnd L < l_effectiveTotal L
       then susp' = Some (AwaitDelay, L\<lparr>l_newData := data s'\<rparr>) \<and>
            l_i (nextBatch L (data s')) = batchEnd L \<and>
            l_i (nextBatch L (data s')) < l_effectiveTotal (nextBatch L (data s')) \<and>
            (\<not> isCancelledRef s' \<and> \<not> isPausedRef s' \<longrightarrow>
               (\<exists>s'' susp''.
                  step apiKey (s', susp') DelayElapsed = Some (s'', susp'') \<and>
                  invocations s'' = invocations s' @ batchRequests (nextBatch L (data s')) \<and>
                  (\<not> batchThrows (nextBatch L (data s')) \<and>
                   batchRequests (nextBatch L (data s')) \<noteq> [] \<longrightarrow>
                     susp'' = Some (AwaitBatch, nextBatch L (data s')) \<and>
                     data s'' = data s' \<and> status s'' = status s')))
       else susp' = None \<and> status s' = COMPLETED)"
proof -
  let ?n = "length (data s0)"
  let ?rqs = "batchRequests L"
  let ?ps = "map2 (invoke apiKey) ?rqs outcomes"
  let ?res = "map projr ?ps"
  let ?tagged = "zip ?rqs ?res"
  let ?merged = "foldl (writeResult config) (data s) ?tagged"
  from inv_exec [OF ex] have iL: "length (data s) = ?n" "l_config L = config"
    "l_newData L = data s" "l_effectiveTotal L = effectiveTotal config ?n"
    by (simp_all add: run_inv_def)
  from err have key: "apiKey \<noteq> []" by (rule invoke_Inr_key)
  have all_Inr: "\<forall>p\<in>set ?ps. \<exists>r. p = Inr r"
    using invoke_with_key [OF key] by auto
  from promiseAll_Inr [OF this] have pa: "promiseAll ?ps = Inr ?res" .
  have lres: "length ?res = length ?rqs" using len by simp
  have res_k: "invoke apiKey (?rqs ! k) (outcomes ! k) = Inr (?res ! k)" if "k < length ?rqs" for k
  proof -
    from invoke_with_key [OF key] obtain r where "invoke apiKey (?rqs ! k) (outcomes ! k) = Inr r"
      by blast
    with that len show ?thesis by simp
  qed
  have rng: "\<forall>p\<in>set ?tagged. rowIndex (fst p) < length (data s)"
  proof
    fix p assume "p \<in> set ?tagged"
    then have "fst p \<in> set ?rqs" by (metis set_zip_leftD prod.collapse)
    from batchRequests_mem [OF this] batchEnd_le [of L] effectiveTotal_le [of config ?n] iL
    show "rowIndex (fst p) < length (data s)" by simp
  qed
  have cell: "row_get (?merged ! rowIndex (?rqs ! k))
                (newColumnName (tasks config ! taskIndex (?rqs ! k))) = Str (res_text (?res ! k))"
    if k: "k < length ?rqs" and nl: "\<not> laterWrite config ?rqs k" for k
  proof -
    from k lres have kt: "k < length ?tagged" by simp
    have "\<forall>k'. k < k' \<and> k' < length ?tagged \<longrightarrow>
           cellKey config (fst (?tagged ! k')) \<noteq> cellKey config (fst (?tagged ! k))"
    proof (intro allI impI)
      fix k' assume k': "k < k' \<and> k' < length ?tagged"
      with nl lres have "cellKey config (?rqs ! k') \<noteq> cellKey config (?rqs ! k)"
        unfolding laterWrite_iff by auto
      with k' k lres show "cellKey config (fst (?tagged ! k')) \<noteq> cellKey config (fst (?tagged ! k))"
        by simp
    qed
    from merge_cell_last [OF rng kt this] k lres show ?thesis by simp
  qed
  have nolater: "\<not> laterWrite config ?rqs k"
    if "distinct (map newColumnName (tasks config))" and "k < length ?rqs" for k
  proof -
    from distinct_batch_keys [OF that(1), of "[l_i L..<batchEnd L]" "l_newData L"] iL
    have "distinct (map (cellKey config) ?rqs)" by (simp add: batchRequests_def)
    from distinct_no_laterWrite [OF this that(2)] show ?thesis .
  qed
  define s' where "s' = fst (afterBatch apiKey s L outcomes)"
  define susp' where "susp' = snd (afterBatch apiKey s L outcomes)"
  have st: "step apiKey (s, Some (AwaitBatch, L)) (BatchSettled outcomes) = Some (s', susp')"
    using len by (simp add: step_def s'_def susp'_def)
  from afterBatch_settled [OF pa, of s] iL
  have d: "data s' = ?merged" and pc: "processedCount s' = batchEnd L"
    and cont: "batchEnd L < l_effectiveTotal L \<Longrightarrow>
        susp' = Some (AwaitDelay, L\<lparr>l_newData := ?merged\<rparr>)"
    and fin: "\<not> batchEnd L < l_effectiveTotal L \<Longrightarrow> susp' = None \<and> status s' = COMPLETED"
    by (simp_all add: s'_def susp'_def Let_def)
  have cells: "\<forall>k<length ?rqs. \<exists>r.
          invoke apiKey (?rqs ! k) (outcomes ! k) = Inr r \<and>
          (\<not> laterWrite config ?rqs k \<longrightarrow>
             row_get (data s' ! rowIndex (?rqs ! k))
                  (newColumnName (tasks config ! taskIndex (?rqs ! k))) = Str (res_text r))"
    using res_k cell d by auto
  let ?N = "nextBatch L (data s')"
  have goes_on: "susp' = Some (AwaitDelay, L\<lparr>l_newData := data s'\<rparr>) \<and>
            l_i ?N = batchEnd L \<and> l_i ?N < l_effectiveTotal ?N \<and>
            (\<not> isCancelledRef s' \<and> \<not> isPausedRef s' \<longrightarrow>
               (\<exists>s'' susp''.
                  step apiKey (s', susp') DelayElapsed = Some (s'', susp'') \<and>
                  invocations s'' = invocations s' @ batchRequests ?N \<and>
                  (\<not> batchThrows ?N \<and> batchRequests ?N \<noteq> [] \<longrightarrow>
                     susp'' = Some (AwaitBatch, ?N) \<and> data s'' = data s' \<and>
                     status s'' = status s')))"
    if more: "batchEnd L < l_effectiveTotal L"
  proof -
    let ?L' = "L\<lparr>l_newData := data s'\<rparr>"
    from cont [OF more] d have su: "susp' = Some (AwaitDelay, ?L')" by simp
    have N: "?L'\<lparr>l_i := batchEnd ?L'\<rparr> = ?N" by (simp add: nextBatch_def)
    have after: "step apiKey (s', susp') DelayElapsed = Some (continue (fireBatch s' ?N) ?N)"
      if "\<not> isCancelledRef s'" "\<not> isPausedRef s'"
    proof -
      from more have "enat (l_i ?L') + l_BATCH_SIZE ?L' = enat (batchEnd L)"
        using next_batch_start [of ?L'] by simp
      with more that have "afterDelay s' ?L'
          = continue (fireBatch s' (?L'\<lparr>l_i := batchEnd ?L'\<rparr>)) (?L'\<lparr>l_i := batchEnd ?L'\<rparr>)"
        by (simp add: afterDelay_def forLoop_closed)
      with su N show ?thesis by (simp add: step_def)
    qed
    have log: "invocations (fst (continue (fireBatch s' ?N) ?N))
        = invocations s' @ batchRequests ?N"
      by (simp add: continue_fireBatch continue_finishBatch)
    have flight: "continue (fireBatch s' ?N) ?N
        = (s'\<lparr>invocations := invocations s' @ batchRequests ?N\<rparr>, Some (AwaitBatch, ?N))"
      if "\<not> batchThrows ?N" "batchRequests ?N \<noteq> []"
      using that by (simp add: continue_fireBatch)
    from more have "l_i ?N = batchEnd L" "l_i ?N < l_effectiveTotal ?N"
      by (simp_all add: nextBatch_def)
    moreover have "\<exists>s'' susp''.
        step apiKey (s', susp') DelayElapsed = Some (s'', susp'') \<and>
        invocations s'' = invocations s' @ batchRequests ?N \<and>
        (\<not> batchThrows ?N \<and> batchRequests ?N \<noteq> [] \<longrightarrow>
           susp'' = Some (AwaitBatch, ?N) \<and> data s'' = data s' \<and> status s'' = status s')"
      if nc: "\<not> isCancelledRef s'" "\<not> isPausedRef s'"
    proof (intro exI conjI)
      show "step apiKey (s', susp') DelayElapsed
          = Some (fst (continue (fireBatch s' ?N) ?N), snd (continue (fireBatch s' ?N) ?N))"
        using after [OF nc] by simp
      show "invocations (fst (continue (fireBatch s' ?N) ?N))
          = invocations s' @ batchRequests ?N"
        by (rule log)
      show "\<not> batchThrows ?N \<and> batchRequests ?N \<noteq> [] \<longrightarrow>
          snd (continue (fireBatch s' ?N) ?N) = Some (AwaitBatch, ?N) \<and>
          data (fst (continue (fireBatch s' ?N) ?N)) = data s' \<and>
          status (fst (continue (fireBatch s' ?N) ?N)) = status s'"
        using flight by simp
    qed
    ultimately show ?thesis using su by blast
  qed
  have "if batchEnd L < l_effectiveTotal L
       then susp' = Some (AwaitDelay, L\<lparr>l_newData := data s'\<rparr>) \<and>
            l_i ?N = batchEnd L \<and> l_i ?N < l_effectiveTotal ?N \<and>
            (\<not> isCancelledRef s' \<and> \<not> isPausedRef s' \<longrightarrow>
               (\<exists>s'' susp''.
                  step apiKey (s', susp') DelayElapsed = Some (s'', susp'') \<and>
                  invocations s'' = invocations s' @ batchRequests ?N \<and>
                  (\<not> batchThrows ?N \<and> batchRequests ?N \<noteq> [] \<longrightarrow>
                     susp'' = Some (AwaitBatch, ?N) \<and> data s'' = data s' \<and>
                     status s'' = status s')))
       else susp' = None \<and> status s' = COMPLETED"
  proof (cases "batchEnd L < l_effectiveTotal L")
    case True
    show ?thesis by (subst if_P [OF True]) (rule goes_on [OF True])
  next
    case False
    show ?thesis by (subst if_not_P [OF False]) (rule fin [OF False])
  qed
  with st cells pc nolater show ?thesis by blast
qed

theorem C6_isolated_failure_witness:
  "map_option fst (snd (handleStartResearch demo_app3 demo_config)) = Some AwaitBatch \<and>
   length (batchRequests (snd (the (snd (handleStartResearch demo_app3 demo_config))))) = 2 \<and>
   invoke ''key'' (batchRequests (snd (the (snd (handleStartResearch demo_app3 demo_config)))) ! 0)
     (demo_outcomes ! 0) = Inr \<lparr>res_text = ''Error'', res_sources = []\<rparr> \<and>
   row_get (data (fst (the (exec ''key'' (handleStartResearch demo_app3 demo_config)
      [BatchSettled demo_outcomes]))) ! 0) ''CEO'' = Str ''Error'' \<and>
   row_get (data (fst (the (exec ''key'' (handleStartResearch demo_app3 demo_config)
      [BatchSettled demo_outcomes]))) ! 1) ''CEO'' = Str ''Jane Roe'' \<and>
   processedCount (fst (the (exec ''key'' (handleStartResearch demo_app3 demo_config)
      [BatchSettled demo_outcomes]))) = 2 \<and>
   map_option fst (snd (the (exec ''key'' (handleStartResearch demo_app3 demo_config)
      [BatchSettled demo_outcomes]))) = Some AwaitDelay \<and>
   map_option fst (snd (the (exec ''key'' (handleStartResearch demo_app3 demo_config)
      [BatchSettled demo_outcomes, DelayElapsed]))) = Some AwaitBatch \<and>
   map rowIndex (invocations (fst (the (exec ''key'' (handleStartResearch demo_app3 demo_config)
      [BatchSettled demo_outcomes, DelayElapsed])))) = [0, 1, 2] \<and>
   status (fst (the (exec ''key'' (handleStartResearch demo_app3 demo_config)
      [BatchSettled demo_outcomes, DelayElapsed]))) = PROCESSING"
proof -
  let ?start = "handleStartResearch demo_app3 demo_config"
  let ?s = "fst ?start"
  let ?L = "snd (the (snd ?start))"
  let ?rqs = "batchRequests ?L"
  let ?X = "exec ''key'' ?start [BatchSettled demo_outcomes]"
  have a: "map_option fst (snd ?start) = Some AwaitBatch" by code_simp
  then have X: "exec ''key'' ?start [] = Some (?s, Some (AwaitBatch, ?L))"
    by (cases ?start) auto
  have l2: "length ?rqs = 2" by code_simp
  then have len: "length demo_outcomes = length ?rqs" by (simp add: demo_outcomes_def)
  from l2 have m: "0 < length ?rqs" by simp
  have err: "invoke ''key'' (?rqs ! 0) (demo_outcomes ! 0)
       = Inr \<lparr>res_text = ''Error'', res_sources = []\<rparr>"
    by code_simp
  have ok: "invoke ''key'' (?rqs ! 1) (demo_outcomes ! 1)
       = Inr \<lparr>res_text = ''Jane Roe'', res_sources = []\<rparr>"
    by code_simp
  have r0: "rowIndex (?rqs ! 0) = 0" "newColumnName (tasks demo_config ! taskIndex (?rqs ! 0)) = ''CEO''"
    by code_simp+
  have r1: "rowIndex (?rqs ! 1) = 1"
    "newColumnName (tasks demo_config ! taskIndex (?rqs ! 1)) = ''CEO''"
    by code_simp+
  have nl: "\<not> laterWrite demo_config ?rqs 0" "\<not> laterWrite demo_config ?rqs 1"
    by code_simp+
  have more: "batchEnd ?L = 2" "batchEnd ?L < l_effectiveTotal ?L" by code_simp+
  have flags: "\<not> isCancelledRef (fst (the ?X))" "\<not> isPausedRef (fst (the ?X))"
    by code_simp+
  have nxt: "\<not> batchThrows (nextBatch ?L (data (fst (the ?X))))"
    "map rowIndex (batchRequests (nextBatch ?L (data (fst (the ?X))))) = [2]"
    by code_simp+
  have log: "map rowIndex (invocations (fst (the ?X))) = [0, 1]" by code_simp
  have st3: "status (fst (the (exec ''key'' ?start [BatchSettled demo_outcomes, DelayElapsed])))
      = PROCESSING"
    by code_simp
  from C6_isolated_failure [OF X len m err]
  obtain s' susp' where
    st: "step ''key'' (?s, Some (AwaitBatch, ?L)) (BatchSettled demo_outcomes) = Some (s', susp')"
    and cells: "\<forall>k<length ?rqs. \<exists>r.
          invoke ''key'' (?rqs ! k) (demo_outcomes ! k) = Inr r \<and>
          (\<not> laterWrite demo_config ?rqs k \<longrightarrow>
            row_get (data s' ! rowIndex (?rqs ! k))
                  (newColumnName (tasks demo_config ! taskIndex (?rqs ! k)))
            = Str (res_text r))"
    and pc: "processedCount s' = batchEnd ?L"
    and cont: "if batchEnd ?L < l_effectiveTotal ?L
       then susp' = Some (AwaitDelay, ?L\<lparr>l_newData := data s'\<rparr>) \<and>
            l_i (nextBatch ?L (data s')) = batchEnd ?L \<and>
            l_i (nextBatch ?L (data s')) < l_effectiveTotal (nextBatch ?L (data s')) \<and>
            (\<not> isCancelledRef s' \<and> \<not> isPausedRef s' \<longrightarrow>
               (\<exists>s'' susp''.
                  step ''key'' (s', susp') DelayElapsed = Some (s'', susp'') \<and>
                  invocations s'' = invocations s' @ batchRequests (nextBatch ?L (data s')) \<and>
                  (\<not> batchThrows (nextBatch ?L (data s')) \<and>
                   batchRequests (nextBatch ?L (data s')) \<noteq> [] \<longrightarrow>
                     susp'' = Some (AwaitBatch, nextBatch ?L (data s')) \<and>
                     data s'' = data s' \<and> status s'' = status s')))
       else susp' = None \<and> status s' = COMPLETED"
    by blast
  from X have "?start = (?s, Some (AwaitBatch, ?L))" by simp
  with st have run: "?X = Some (s', susp')" by simp
  then have s': "fst (the ?X) = s'" by simp
  from cells m nl(1) obtain ra where
    ia: "invoke ''key'' (?rqs ! 0) (demo_outcomes ! 0) = Inr ra" and
    ca: "row_get (data s' ! rowIndex (?rqs ! 0))
       (newColumnName (tasks demo_config ! taskIndex (?rqs ! 0))) = Str (res_text ra)"
    by blast
  from ia err have "ra = \<lparr>res_text = ''Error'', res_sources = []\<rparr>" by simp
  with ca r0 have c0: "row_get (data s' ! 0) ''CEO'' = Str ''Error''" by simp
  from l2 have "1 < length ?rqs" by simp
  with cells nl(2) obtain rb where
    ib: "invoke ''key'' (?rqs ! 1) (demo_outcomes ! 1) = Inr rb" and
    cb: "row_get (data s' ! rowIndex (?rqs ! 1))
       (newColumnName (tasks demo_config ! taskIndex (?rqs ! 1))) = Str (res_text rb)"
    by blast
  from ib ok have "rb = \<lparr>res_text = ''Jane Roe'', res_sources = []\<rparr>" by simp
  with cb r1 have c1: "row_get (data s' ! 1) ''CEO'' = Str ''Jane Roe''" by simp
  note cont' = cont [unfolded if_P [OF more(2)]]
  from cont' have su: "susp' = Some (AwaitDelay, ?L\<lparr>l_newData := data s'\<rparr>)"
    and after: "\<not> isCancelledRef s' \<and> \<not> isPausedRef s' \<longrightarrow>
               (\<exists>s'' susp''.
                  step ''key'' (s', susp') DelayElapsed = Some (s'', susp'') \<and>
                  invocations s'' = invocations s' @ batchRequests (nextBatch ?L (data s')) \<and>
                  (\<not> batchThrows (nextBatch ?L (data s')) \<and>
                   batchRequests (nextBatch ?L (data s')) \<noteq> [] \<longrightarrow>
                     susp'' = Some (AwaitBatch, nextBatch ?L (data s')) \<and>
                     data s'' = data s' \<and> status s'' = status s'))"
    by blast+
  from nxt(2) s' have ne: "batchRequests (nextBatch ?L (data s')) \<noteq> []" by auto
  from after flags nxt(1) ne s' obtain s'' susp'' where
    st2: "step ''key'' (s', susp') DelayElapsed = Some (s'', susp'')"
    and log2: "invocations s'' = invocations s' @ batchRequests (nextBatch ?L (data s'))"
    and fl: "susp'' = Some (AwaitBatch, nextBatch ?L (data s'))"
    by auto
  have "exec ''key'' ?start ([BatchSettled demo_outcomes] @ [DelayElapsed]) = Some (s'', susp'')"
    unfolding exec_append run using st2 by simp
  then have run2: "exec ''key'' ?start [BatchSettled demo_outcomes, DelayElapsed] = Some (s'', susp'')"
    by simp
  from log2 log nxt(2) s' have l3: "map rowIndex (invocations s'') = [0, 1, 2]" by simp
  from su have d1: "map_option fst susp' = Some AwaitDelay" by simp
  from fl have d2: "map_option fst susp'' = Some AwaitBatch" by simp
  from a l2 err run run2 c0 c1 pc more d1 d2 l3 st3 show ?thesis by simp
qed

end
